theory Spec2Isabelle
  imports Main "HOL-Library.Sublist" "HOL-Library.Multiset" "HOL-Library.Char_ord"
begin

section \<open>JavaScript containers\<close>

text \<open>
  A JavaScript \<^verbatim>\<open>Map\<close> keeps its entries in insertion order, holds every key once, and
  \<^verbatim>\<open>set\<close> on a key that is present replaces the value where the entry stands. It is modelled
  as an association list with exactly these operations. A \<^verbatim>\<open>Set\<close> is a list without
  repetition, \<^verbatim>\<open>add\<close> appending what is not yet a member.
\<close>

fun Map_get :: "('k \<times> 'v) list \<Rightarrow> 'k \<Rightarrow> 'v option" where
  "Map_get [] k = None"
| "Map_get ((k', v') # es) k = (if k' = k then Some v' else Map_get es k)"

fun Map_set :: "'k \<Rightarrow> 'v \<Rightarrow> ('k \<times> 'v) list \<Rightarrow> ('k \<times> 'v) list" where
  "Map_set k v [] = [(k, v)]"
| "Map_set k v ((k', v') # es) = (if k' = k then (k, v) # es else (k', v') # Map_set k v es)"

definition Map_delete :: "'k \<Rightarrow> ('k \<times> 'v) list \<Rightarrow> ('k \<times> 'v) list" where
  "Map_delete k es = filter (\<lambda>e. fst e \<noteq> k) es"

text \<open>
  \<open>Map_modify k f m\<close> is a mutation of the object stored under \<open>k\<close>
  (\<^verbatim>\<open>m.get(k).field = ...\<close>): the entry keeps its place and its key.
\<close>

fun Map_modify :: "'k \<Rightarrow> ('v \<Rightarrow> 'v) \<Rightarrow> ('k \<times> 'v) list \<Rightarrow> ('k \<times> 'v) list" where
  "Map_modify k f [] = []"
| "Map_modify k f ((k', v') # es) =
     (if k' = k then (k', f v') # es else (k', v') # Map_modify k f es)"

definition Map_keys :: "('k \<times> 'v) list \<Rightarrow> 'k list" where
  "Map_keys es = map fst es"

definition Set_add :: "'a \<Rightarrow> 'a list \<Rightarrow> 'a list" where
  "Set_add x xs = (if x \<in> set xs then xs else xs @ [x])"

section \<open>TreeBuilder\<close>

text \<open>\<^verbatim>\<open>type PTree = Map<string, PTree>\<close>\<close>

datatype PTree = PTree (entries: "(string \<times> PTree) list")

definition startsWith :: "string \<Rightarrow> string \<Rightarrow> bool" where
  "startsWith b a = (take (length a) b = a)"

fun ptreeNodes :: "PTree \<Rightarrow> nat" where
  "ptreeNodes (PTree es) = Suc (sum_list (map (\<lambda>e. ptreeNodes (snd e)) es))"

definition ptreeWeight :: "(string \<times> PTree) list \<Rightarrow> nat" where
  "ptreeWeight es = sum_list (map (\<lambda>e. ptreeNodes (snd e)) es)"

text \<open>
  The inner loop of \<^verbatim>\<open>nestPT\<close>, \<^verbatim>\<open>for (const [b, bTree] of tree)\<close>, for a fixed outer
  key \<open>a\<close>. The iterator is live: \<open>pending\<close> are the keys still ahead of it, and an entry is
  visited when it is still in the map as the iterator reaches it. Visiting \<open>b\<close> with
  \<^verbatim>\<open>b.startsWith(a)\<close> stores \<open>bTree\<close> in the map held under \<open>a\<close>, keyed by
  \<^verbatim>\<open>b.slice(a.length)\<close>, and deletes \<open>b\<close>. (\<^verbatim>\<open>tree.get(a)\<close> is the map of the key
  the outer iterator stands on, which the loop never deletes.)
\<close>

fun nestInner :: "string \<Rightarrow> string list \<Rightarrow> (string \<times> PTree) list \<Rightarrow> (string \<times> PTree) list" where
  "nestInner a [] tree = tree"
| "nestInner a (b # pending) tree =
     (case Map_get tree b of
        None \<Rightarrow> nestInner a pending tree
      | Some bTree \<Rightarrow>
          if a = b then nestInner a pending tree
          else if startsWith b a then
            nestInner a pending
              (Map_delete b
                (Map_modify a
                  (\<lambda>aTree. PTree (Map_set (drop (length a) b) bTree (entries aTree))) tree))
          else nestInner a pending tree)"

text \<open>
  The outer loop, \<^verbatim>\<open>for (const a of tree.keys())\<close>, live as well: a key that an earlier
  round deleted is not visited.
\<close>

fun nestOuter :: "string list \<Rightarrow> (string \<times> PTree) list \<Rightarrow> (string \<times> PTree) list" where
  "nestOuter [] tree = tree"
| "nestOuter (a # pending) tree =
     (if a \<in> set (Map_keys tree) then nestOuter pending (nestInner a (Map_keys tree) tree)
      else nestOuter pending tree)"

lemma ptreeWeight_Map_set: "ptreeWeight (Map_set k v es) \<le> ptreeWeight es + ptreeNodes v"
  by (induction es) (auto simp: ptreeWeight_def)

lemma ptreeWeight_Map_modify:
  "(\<And>v. ptreeNodes (f v) \<le> ptreeNodes v + n) \<Longrightarrow>
   ptreeWeight (Map_modify k f es) \<le> ptreeWeight es + n"
  by (induction es) (auto simp: ptreeWeight_def add.commute add_le_mono le_SucI trans_le_add2)

lemma ptreeWeight_filter: "ptreeWeight (filter P es) \<le> ptreeWeight es"
  by (induction es) (auto simp: ptreeWeight_def trans_le_add2)

lemma ptreeWeight_Map_delete:
  "Map_get es k = Some v \<Longrightarrow> ptreeWeight (Map_delete k es) + ptreeNodes v \<le> ptreeWeight es"
proof (induction es)
  case Nil
  then show ?case by simp
next
  case (Cons e es)
  show ?case
  proof (cases "fst e = k")
    case True
    then have "snd e = v" using Cons.prems by (cases e) simp
    with True show ?thesis
      using ptreeWeight_filter[of "\<lambda>e. fst e \<noteq> k" es]
      by (simp add: Map_delete_def ptreeWeight_def)
  next
    case False
    then have "Map_get es k = Some v" using Cons.prems by (cases e) simp
    with False Cons.IH show ?thesis
      by (simp add: Map_delete_def ptreeWeight_def)
  qed
qed

lemma Map_get_modify_other: "a \<noteq> k \<Longrightarrow> Map_get (Map_modify a f es) k = Map_get es k"
  by (induction es) auto

lemma ptreeWeight_nestInner: "ptreeWeight (nestInner a pending tree) \<le> ptreeWeight tree"
proof (induction pending arbitrary: tree)
  case Nil
  show ?case by simp
next
  case (Cons b pending)
  show ?case
  proof (cases "Map_get tree b")
    case None
    then show ?thesis using Cons.IH by simp
  next
    case (Some bTree)
    let ?m = "Map_modify a (\<lambda>aTree. PTree (Map_set (drop (length a) b) bTree (entries aTree))) tree"
    show ?thesis
    proof (cases "a \<noteq> b \<and> startsWith b a")
      case True
      have "\<And>v. ptreeNodes (PTree (Map_set (drop (length a) b) bTree (entries v)))
                \<le> ptreeNodes v + ptreeNodes bTree"
      proof -
        fix v
        show "ptreeNodes (PTree (Map_set (drop (length a) b) bTree (entries v)))
                \<le> ptreeNodes v + ptreeNodes bTree"
          using ptreeWeight_Map_set[of "drop (length a) b" bTree "entries v"]
          by (cases v) (simp add: ptreeWeight_def)
      qed
      then have m: "ptreeWeight ?m \<le> ptreeWeight tree + ptreeNodes bTree"
        by (rule ptreeWeight_Map_modify)
      have "Map_get ?m b = Some bTree"
        using True Some by (simp add: Map_get_modify_other)
      then have "ptreeWeight (Map_delete b ?m) + ptreeNodes bTree \<le> ptreeWeight ?m"
        by (rule ptreeWeight_Map_delete)
      with m have "ptreeWeight (Map_delete b ?m) \<le> ptreeWeight tree" by simp
      moreover have "ptreeWeight (nestInner a pending (Map_delete b ?m)) \<le> ptreeWeight (Map_delete b ?m)"
        by (rule Cons.IH)
      ultimately show ?thesis using True Some by simp
    next
      case False
      then show ?thesis using Some Cons.IH by auto
    qed
  qed
qed

lemma ptreeWeight_nestOuter: "ptreeWeight (nestOuter pending tree) \<le> ptreeWeight tree"
proof (induction pending arbitrary: tree)
  case Nil
  show ?case by simp
next
  case (Cons a pending)
  show ?case
    using Cons.IH[of tree] Cons.IH[of "nestInner a (Map_keys tree) tree"]
      ptreeWeight_nestInner[of a "Map_keys tree" tree]
    by (simp del: nestInner.simps)
qed

lemma ptreeNodes_le_ptreeWeight: "e \<in> set es \<Longrightarrow> ptreeNodes (snd e) \<le> ptreeWeight es"
  by (induction es) (auto simp: ptreeWeight_def)

text \<open>
  \<^verbatim>\<open>nestPT\<close>: a map of fewer than two entries is left as it is, its entries' own maps
  included; otherwise the two loops run and \<^verbatim>\<open>nestPT\<close> is applied to each value that
  is left.
\<close>

function nestPT :: "PTree \<Rightarrow> PTree" where
  "nestPT (PTree tree) =
     (if length tree < 2 then PTree tree
      else PTree (map (\<lambda>e. (fst e, nestPT (snd e))) (nestOuter (Map_keys tree) tree)))"
  by pat_completeness auto
termination
proof (relation "measure ptreeNodes")
  show "wf (measure ptreeNodes)" by simp
next
  fix tree :: "(string \<times> PTree) list" and e
  assume "e \<in> set (nestOuter (Map_keys tree) tree)"
  then have "ptreeNodes (snd e) \<le> ptreeWeight (nestOuter (Map_keys tree) tree)"
    by (rule ptreeNodes_le_ptreeWeight)
  also have "\<dots> \<le> ptreeWeight tree" by (rule ptreeWeight_nestOuter)
  finally show "(snd e, PTree tree) \<in> measure ptreeNodes"
    by (simp add: ptreeWeight_def)
qed

text \<open>
  \<^verbatim>\<open>renderPR\<close> walks a snapshot of the entries (\<^verbatim>\<open>[...tree.entries()]\<close>) and changes the
  map itself: each entry is deleted, its own map rendered with the prefix \<open>pref @ p\<close>, and
  stored again under \<^verbatim>\<open>pFull.slice(undefined, -1)\<close>, which is \<open>butlast\<close>.
\<close>

fun renderPR :: "PTree \<Rightarrow> string \<Rightarrow> PTree"
  and renderEntries ::
    "(string \<times> PTree) list \<Rightarrow> string \<Rightarrow> (string \<times> PTree) list \<Rightarrow> (string \<times> PTree) list" where
  "renderPR (PTree tree) pref = PTree (renderEntries tree pref tree)"
| "renderEntries [] pref tree = tree"
| "renderEntries ((p, pTree) # snapshot) pref tree =
     renderEntries snapshot pref
       (Map_set (butlast (pref @ p)) (renderPR pTree (pref @ p)) (Map_delete p tree))"

text \<open>
  \<^verbatim>\<open>new Map(Array.from(paths, p => [p + dirSeparator, new Map()]))\<close>: the \<^verbatim>\<open>Map\<close>
  constructor stores the pairs one after the other. The set of paths is the list of its
  members in insertion order.
\<close>

definition leaves :: "string list \<Rightarrow> char \<Rightarrow> PTree" where
  "leaves paths dirSeparator =
     PTree (foldl (\<lambda>m p. Map_set (p @ [dirSeparator]) (PTree []) m) [] paths)"

definition fromPaths :: "string list \<Rightarrow> char \<Rightarrow> PTree" where
  "fromPaths paths dirSeparator = renderPR (nestPT (leaves paths dirSeparator)) []"

section \<open>The npm-ls data\<close>

text \<open>
  The values a field of the parsed JSON (or an absent field) can hold, as far as the builder
  tells them apart: \<^verbatim>\<open>undefined\<close>, \<^verbatim>\<open>null\<close>, a boolean, a string, anything else.
\<close>

datatype JSValue = JSUndefined | JSNull | JSBool bool | JSString string | JSOther

text \<open>The operator \<^verbatim>\<open>??\<close>.\<close>

definition coalesce :: "JSValue \<Rightarrow> JSValue \<Rightarrow> JSValue" where
  "coalesce a b = (if a = JSUndefined \<or> a = JSNull then b else a)"

text \<open>
  The fields of one record of the listing that \<^verbatim>\<open>makeComponent\<close> reads; the fields named
  \<open>_legacy\<close> are the ones older npm versions write with a leading underscore
  (\<^verbatim>\<open>_optional\<close>, \<^verbatim>\<open>_development\<close>, \<^verbatim>\<open>_inBundle\<close>, \<^verbatim>\<open>_resolved\<close>, \<^verbatim>\<open>_integrity\<close>),
  and \<open>raw_id\<close> is \<^verbatim>\<open>_id\<close>.
\<close>

record RawData =
  raw_name :: JSValue
  raw_id :: JSValue
  raw_version :: JSValue
  raw_path :: JSValue
  raw_optional :: JSValue
  raw_optional_legacy :: JSValue
  raw_dev :: JSValue
  raw_development_legacy :: JSValue
  raw_devOptional :: JSValue
  raw_extraneous :: JSValue
  raw_private :: JSValue
  raw_inBundle :: JSValue
  raw_inBundle_legacy :: JSValue
  raw_resolved :: JSValue
  raw_resolved_legacy :: JSValue
  raw_integrity :: JSValue
  raw_integrity_legacy :: JSValue

text \<open>
  A record with its \<^verbatim>\<open>dependencies\<close>, as \<^verbatim>\<open>Object.entries\<close> lists them: a name and a
  value, \<open>None\<close> for a value that is \<^verbatim>\<open>null\<close> or not an object.
\<close>

datatype NpmLsNode =
  NpmLsNode (props: RawData) (raw_dependencies: "(string \<times> NpmLsNode option) list")

section \<open>Components\<close>

datatype OmittableDependencyTypes = Dev | Optional | Peer

datatype ComponentType = Application | Library | Firmware

datatype ComponentScope = ScopeRequired | ScopeOptional | ScopeExcluded

datatype HashAlgorithm = SHA_512 | SHA_1 | SHA_256 | SHA_384

datatype PropertyName =
  PackageInstallPath | PackageDevelopment | PackageExtraneous | PackagePrivate | PackageBundled

datatype ExternalReferenceType = Distribution | OtherReference string

record ExternalReference =
  er_url :: string
  er_type :: ExternalReferenceType
  er_hashes :: "(HashAlgorithm \<times> string) list"
  er_comment :: string

record PackageURL =
  purl_coordinates :: string
  purl_qualifiers :: "(string \<times> string) list option"
  purl_subpath :: "string option"

text \<open>
  A component object. Every component the builder creates is stored in \<^verbatim>\<open>allComponents\<close>
  under one install path as it is created and never under another, so the install path
  names the object: \<open>c_dependencies\<close> holds the paths of the components whose
  \<^verbatim>\<open>bomRef\<close> objects are in \<^verbatim>\<open>dependencies\<close>, \<open>c_components\<close> the paths of the component
  objects in \<^verbatim>\<open>components\<close>. \<open>c_bomRef\<close> is \<^verbatim>\<open>bomRef.value\<close>.
\<close>

record Component =
  c_type :: ComponentType
  c_name :: string
  c_group :: "string option"
  c_version :: "string option"
  c_description :: "string option"
  c_bomRef :: "string option"
  c_scope :: "ComponentScope option"
  c_properties :: "(PropertyName \<times> string) list"
  c_externalReferences :: "ExternalReference list"
  c_purl :: "PackageURL option"
  c_dependencies :: "string list"
  c_components :: "string list"
  c_isDummy :: bool

definition DummyComponent :: "ComponentType \<Rightarrow> string \<Rightarrow> Component" where
  "DummyComponent type name =
     \<lparr> c_type = type,
       c_name = ''DummyComponent.'' @ name,
       c_group = None,
       c_version = None,
       c_description = Some (''This is a dummy component '' @ [CHR 0x22] @ name @ [CHR 0x22]
                              @ '' that fills the gap where the actual built failed.''),
       c_bomRef = Some (''DummyComponent.'' @ name),
       c_scope = None,
       c_properties = [],
       c_externalReferences = [],
       c_purl = None,
       c_dependencies = [],
       c_components = [],
       c_isDummy = True \<rparr>"

text \<open>
  The builder object: its options, and what it calls outside this repository, taken as
  parameters. \<open>componentBuilder_makeComponent\<close> and \<open>purlFactory_makeFromComponent\<close> are the
  library's builders, \<open>normalizePackageData\<close> the package of that name,
  \<open>enhancedPackageData\<close> the read of \<^verbatim>\<open>package.json\<close> from the disk, and \<open>path_relative\<close>
  is \<^verbatim>\<open>path.posix.relative\<close> for the separator \<open>/\<close> and \<^verbatim>\<open>path.win32.relative\<close> for the
  other. Each of them is a function here, which returns on every argument: a call that
  raises in the library (as \<^verbatim>\<open>normalizePackageData\<close> does on a version that is no semantic
  version) ends \<^verbatim>\<open>buildFromNpmLs\<close> with that exception, and the statements below speak of
  the runs in which no such call raises.
\<close>

record BomBuilder =
  componentBuilder_makeComponent :: "RawData \<Rightarrow> ComponentType option \<Rightarrow> Component option"
  purlFactory_makeFromComponent :: "Component \<Rightarrow> bool \<Rightarrow> PackageURL option"
  normalizePackageData :: "RawData \<Rightarrow> RawData"
  enhancedPackageData :: "RawData \<Rightarrow> RawData"
  path_relative :: "char \<Rightarrow> string \<Rightarrow> string \<Rightarrow> string"
  metaComponentType :: ComponentType
  packageLockOnly :: bool
  omitDependencyTypes :: "OmittableDependencyTypes set"
  reproducible :: bool
  flattenComponents :: bool
  shortPURLs :: bool

section \<open>The integrity patterns\<close>

definition toLowerCase :: "char \<Rightarrow> char" where
  "toLowerCase c =
     (if CHR ''A'' \<le> c \<and> c \<le> CHR ''Z'' then char_of (of_char c + (32 :: nat)) else c)"

text \<open>The class \<^verbatim>\<open>[a-z0-9+/]\<close> under the flag \<^verbatim>\<open>i\<close>.\<close>

definition isBase64Char :: "char \<Rightarrow> bool" where
  "isBase64Char c =
     ((CHR ''a'' \<le> c \<and> c \<le> CHR ''z'') \<or> (CHR ''A'' \<le> c \<and> c \<le> CHR ''Z'')
      \<or> (CHR ''0'' \<le> c \<and> c \<le> CHR ''9'') \<or> c = CHR ''+'' \<or> c = CHR ''/'')"

text \<open>
  A pattern \<^verbatim>\<open>/^PREFIX([a-z0-9+/]{N}PAD)$/i\<close> is the triple of its prefix (in lower case),
  the count and the padding. \<open>RegExp_exec\<close> is \<^verbatim>\<open>exec\<close>: the match array, the whole match
  and the one group, or \<open>None\<close> for \<^verbatim>\<open>null\<close>.
\<close>

type_synonym IntegrityRegExp = "string \<times> nat \<times> string"

definition RegExp_exec :: "IntegrityRegExp \<Rightarrow> string \<Rightarrow> string list option" where
  "RegExp_exec re s =
     (case re of (lit, n, pad) \<Rightarrow>
        if length s = length lit + n + length pad
           \<and> map toLowerCase (take (length lit) s) = lit
           \<and> list_all isBase64Char (take n (drop (length lit) s))
           \<and> drop (length lit + n) s = pad
        then Some [s, drop (length lit) s]
        else None)"

definition integrityRE :: "(HashAlgorithm \<times> IntegrityRegExp) list" where
  "integrityRE =
     [ (SHA_512, (''sha512-'', 86, ''=='')),
       (SHA_1, (''sha1-'', 27, ''='')),
       (SHA_256, (''sha256-'', 43, ''='')),
       (SHA_384, (''sha384-'', 64, [])) ]"

text \<open>The pattern \<^verbatim>\<open>/^(?:ignore|file):/i\<close>, and \<^verbatim>\<open>test\<close> on it.\<close>

definition resolvedRE_ignore_test :: "string \<Rightarrow> bool" where
  "resolvedRE_ignore_test s =
     (map toLowerCase (take 7 s) = ''ignore:'' \<or> map toLowerCase (take 5 s) = ''file:'')"

text \<open>
  \<^verbatim>\<open>Buffer.from(s, 'base64').toString('hex')\<close> of the Node.js runtime: the characters up
  to the padding are read as numbers of six bits (a character outside the alphabet is
  passed over), every four of them give three bytes, two left over give one byte and three
  give two; each byte is written as two hexadecimal digits in lower case.
\<close>

definition base64Alphabet :: string where
  "base64Alphabet = ''ABCDEFGHIJKLMNOPQRSTUVWXYZabcdefghijklmnopqrstuvwxyz0123456789+/''"

fun indexOf :: "char \<Rightarrow> string \<Rightarrow> nat option" where
  "indexOf c [] = None"
| "indexOf c (x # xs) = (if x = c then Some 0 else map_option Suc (indexOf c xs))"

definition unbase64 :: "char \<Rightarrow> nat option" where
  "unbase64 c =
     (if c = CHR ''-'' then Some 62 else if c = CHR ''_'' then Some 63
      else indexOf c base64Alphabet)"

fun base64Sextets :: "string \<Rightarrow> nat list" where
  "base64Sextets [] = []"
| "base64Sextets (c # cs) =
     (if c = CHR ''='' then []
      else case unbase64 c of None \<Rightarrow> base64Sextets cs | Some v \<Rightarrow> v # base64Sextets cs)"

fun base64Bytes :: "nat list \<Rightarrow> nat list" where
  "base64Bytes (a # b # c # d # rest) =
     ((a * 4 + b div 16) mod 256) # ((b * 16 + c div 4) mod 256) # ((c * 64 + d) mod 256)
       # base64Bytes rest"
| "base64Bytes [a, b, c] = [(a * 4 + b div 16) mod 256, (b * 16 + c div 4) mod 256]"
| "base64Bytes [a, b] = [(a * 4 + b div 16) mod 256]"
| "base64Bytes [a] = []"
| "base64Bytes [] = []"

definition Buffer_from_base64 :: "string \<Rightarrow> nat list" where
  "Buffer_from_base64 s = base64Bytes (base64Sextets s)"

definition hexDigit :: "nat \<Rightarrow> char" where
  "hexDigit n = ''0123456789abcdef'' ! (n mod 16)"

definition Buffer_toString_hex :: "nat list \<Rightarrow> string" where
  "Buffer_toString_hex bytes = concat (map (\<lambda>b. [hexDigit (b div 16), hexDigit b]) bytes)"

text \<open>
  The loop over \<^verbatim>\<open>integrityRE\<close> in \<^verbatim>\<open>makeComponent\<close>: the first pattern whose match array
  has two elements sets the one hash and ends the loop.
\<close>

fun integrityHashes ::
    "(HashAlgorithm \<times> IntegrityRegExp) list \<Rightarrow> string \<Rightarrow> (HashAlgorithm \<times> string) list
      \<Rightarrow> (HashAlgorithm \<times> string) list" where
  "integrityHashes [] integrity hashes = hashes"
| "integrityHashes ((hashAlgorithm, hashRE) # res) integrity hashes =
     (let hashMatchBase64 = (case RegExp_exec hashRE integrity of None \<Rightarrow> [] | Some m \<Rightarrow> m)
      in if length hashMatchBase64 = 2
         then Map_set hashAlgorithm
                (Buffer_toString_hex (Buffer_from_base64 (hashMatchBase64 ! 1))) hashes
         else integrityHashes res integrity hashes)"

section \<open>makeComponent\<close>

datatype MakeComponentResult = Built Component | Skip | Broken

text \<open>
  \<open>Skip\<close> is the result \<^verbatim>\<open>false\<close>, \<open>Broken\<close> the result \<^verbatim>\<open>undefined\<close>.
  \<^verbatim>\<open>String.prototype.trim\<close> strips white space and line terminators; of the characters
  that a string of this model can hold these are the six of ASCII and the no-break space.
\<close>

definition isWhiteSpace :: "char \<Rightarrow> bool" where
  "isWhiteSpace c =
     (c \<in> set [CHR 0x09, CHR 0x0A, CHR 0x0B, CHR 0x0C, CHR 0x0D, CHR 0x20, CHR 0xA0])"

definition trim :: "string \<Rightarrow> string" where
  "trim s = rev (dropWhile isWhiteSpace (rev (dropWhile isWhiteSpace s)))"

definition orDash :: "string option \<Rightarrow> string" where
  "orDash v = (case v of None \<Rightarrow> ''-'' | Some s \<Rightarrow> if s = [] then ''-'' else s)"

definition makePurl :: "BomBuilder \<Rightarrow> Component \<Rightarrow> PackageURL option" where
  "makePurl bb component =
     (case purlFactory_makeFromComponent bb component (reproducible bb) of
        None \<Rightarrow> None
      | Some purl \<Rightarrow>
          Some (if shortPURLs bb then purl\<lparr> purl_qualifiers := None, purl_subpath := None \<rparr>
                else purl))"

definition addProperty :: "bool \<Rightarrow> PropertyName \<Rightarrow> string \<Rightarrow> Component \<Rightarrow> Component" where
  "addProperty cond name v component =
     (if cond then component\<lparr> c_properties := c_properties component @ [(name, v)] \<rparr>
      else component)"

definition addDistribution :: "RawData \<Rightarrow> Component \<Rightarrow> Component" where
  "addDistribution data component =
     (case coalesce (raw_resolved data) (raw_resolved_legacy data) of
        JSString resolved \<Rightarrow>
          if resolvedRE_ignore_test resolved then component
          else
            let hashes =
                  (case coalesce (raw_integrity data) (raw_integrity_legacy data) of
                     JSString integrity \<Rightarrow> integrityHashes integrityRE integrity []
                   | _ \<Rightarrow> [])
            in component\<lparr> c_externalReferences := c_externalReferences component @
                 [\<lparr> er_url = resolved, er_type = Distribution, er_hashes = hashes,
                    er_comment = ''as detected from npm-ls property '' @ [CHR 0x22] @ ''resolved''
                      @ [CHR 0x22]
                      @ (if length hashes > 0
                         then '' and property '' @ [CHR 0x22] @ ''integrity'' @ [CHR 0x22]
                         else []) \<rparr>] \<rparr>
      | _ \<Rightarrow> component)"

definition bomRefOf :: "RawData \<Rightarrow> Component \<Rightarrow> string" where
  "bomRefOf data component =
     (let fallback = orDash (c_group component) @ ''/'' @ c_name component @ ''@''
                       @ orDash (c_version component)
      in case raw_id data of
           JSString i \<Rightarrow> if i \<noteq> [] then i else fallback
         | _ \<Rightarrow> fallback)"

definition makeComponent ::
    "BomBuilder \<Rightarrow> RawData \<Rightarrow> ComponentType option \<Rightarrow> MakeComponentResult" where
  "makeComponent bb data type =
     (let isOptional = (coalesce (raw_optional data) (raw_optional_legacy data) = JSBool True)
      in if isOptional \<and> Optional \<in> omitDependencyTypes bb then Skip
      else
      let isDev = (coalesce (raw_dev data) (raw_development_legacy data) = JSBool True)
      in if isDev \<and> Dev \<in> omitDependencyTypes bb then Skip
      else
      let isDevOptional = (raw_devOptional data = JSBool True)
      in if isDevOptional \<and> Dev \<in> omitDependencyTypes bb \<and> Optional \<in> omitDependencyTypes bb
         then Skip
      else
      let dataC0 = (if packageLockOnly bb then data else enhancedPackageData bb data);
          dataC1 = normalizePackageData bb dataC0;
          dataC = (case raw_version data of
                     JSString v \<Rightarrow> dataC1\<lparr> raw_version := JSString (trim v) \<rparr>
                   | _ \<Rightarrow> dataC1)
      in case componentBuilder_makeComponent bb dataC type of
           None \<Rightarrow> Broken
         | Some component0 \<Rightarrow>
             let component1 = (if isOptional \<or> isDevOptional
                               then component0\<lparr> c_scope := Some ScopeOptional \<rparr>
                               else component0);
                 component2 = (case raw_path data of
                                 JSString p \<Rightarrow> addProperty True PackageInstallPath p component1
                               | _ \<Rightarrow> component1);
                 component3 = addProperty (isDev \<or> isDevOptional) PackageDevelopment ''true''
                                component2;
                 component4 = addProperty (raw_extraneous data = JSBool True) PackageExtraneous
                                ''true'' component3;
                 component5 = addProperty
                                (raw_private data = JSBool True \<or> raw_private dataC = JSBool True)
                                PackagePrivate ''true'' component4;
                 component6 = addProperty
                                (coalesce (raw_inBundle data) (raw_inBundle_legacy data)
                                   = JSBool True)
                                PackageBundled ''true'' component5;
                 component7 = addDistribution data component6;
                 component8 = component7\<lparr> c_purl := makePurl bb component7 \<rparr>
             in Built (component8\<lparr> c_bomRef := Some (bomRefOf data component8) \<rparr>))"

section \<open>gatherDependencies\<close>

text \<open>
  The state of the walk: the map \<^verbatim>\<open>allComponents\<close>, whose values are the component
  objects, and, to tell what the walk normalizes, the records handed to
  \<^verbatim>\<open>makeComponent\<close> in the order of the calls.
\<close>

record WalkState =
  allComponents :: "(string \<times> Component) list"
  makeComponentCalls :: "RawData list"

text \<open>
  \<^verbatim>\<open>directDepRefs.add(dep.bomRef)\<close>, where \<^verbatim>\<open>directDepRefs\<close> is the set
  \<^verbatim>\<open>dependencies\<close> of the component stored under \<open>parent\<close>.
\<close>

definition addDependency :: "string \<Rightarrow> string \<Rightarrow> WalkState \<Rightarrow> WalkState" where
  "addDependency parent p st =
     st\<lparr> allComponents :=
           Map_modify parent (\<lambda>c. c\<lparr> c_dependencies := Set_add p (c_dependencies c) \<rparr>)
             (allComponents st) \<rparr>"

text \<open>
  The first half of the loop's body: \<^verbatim>\<open>let dep = allComponents.get(depData.path)\<close> and,
  where there is none, the making and storing of one. The result is the state and whether
  the body goes on with a \<^verbatim>\<open>dep\<close>; \<open>False\<close> is the \<^verbatim>\<open>continue\<close> after the skip signal.
\<close>

definition resolveDependency ::
    "BomBuilder \<Rightarrow> string \<Rightarrow> RawData \<Rightarrow> string \<Rightarrow> WalkState \<Rightarrow> WalkState \<times> bool" where
  "resolveDependency bb depName depData p st =
     (case Map_get (allComponents st) p of
        Some dep \<Rightarrow> (st, True)
      | None \<Rightarrow>
          (let st1 = st\<lparr> makeComponentCalls := makeComponentCalls st @ [depData] \<rparr>
           in case makeComponent bb depData None of
                Skip \<Rightarrow> (st1, False)
              | Broken \<Rightarrow>
                  (st1\<lparr> allComponents :=
                          Map_set p (DummyComponent Library (''InterferedDependency.'' @ depName))
                            (allComponents st1) \<rparr>, True)
              | Built dep \<Rightarrow> (st1\<lparr> allComponents := Map_set p dep (allComponents st1) \<rparr>, True)))"

text \<open>
  \<open>gatherDependencies bb data parent\<close> is \<^verbatim>\<open>gatherDependencies(allComponents, data,
  directDepRefs)\<close> with the set of the component under \<open>parent\<close> for \<^verbatim>\<open>directDepRefs\<close>;
  \<open>gatherEntries\<close> is its loop over \<^verbatim>\<open>Object.entries(data.dependencies ?? {})\<close>. An entry
  whose value is no object, or whose path is no string, is passed over.
\<close>

fun gatherDependencies :: "BomBuilder \<Rightarrow> NpmLsNode \<Rightarrow> string \<Rightarrow> WalkState \<Rightarrow> WalkState"
  and gatherEntries ::
    "BomBuilder \<Rightarrow> (string \<times> NpmLsNode option) list \<Rightarrow> string \<Rightarrow> WalkState \<Rightarrow> WalkState" where
  "gatherDependencies bb (NpmLsNode data deps) parent st = gatherEntries bb deps parent st"
| "gatherEntries bb [] parent st = st"
| "gatherEntries bb ((depName, None) # rest) parent st = gatherEntries bb rest parent st"
| "gatherEntries bb ((depName, Some depData) # rest) parent st =
     (case raw_path (props depData) of
        JSString p \<Rightarrow>
          (case resolveDependency bb depName (props depData) p st of
             (st1, False) \<Rightarrow> gatherEntries bb rest parent st1
           | (st1, True) \<Rightarrow>
               gatherEntries bb rest parent
                 (gatherDependencies bb depData p (addDependency parent p st1)))
      | _ \<Rightarrow> gatherEntries bb rest parent st)"

section \<open>finalizePathProperties\<close>

fun replaceFirst :: "char \<Rightarrow> char \<Rightarrow> string \<Rightarrow> string" where
  "replaceFirst x y [] = []"
| "replaceFirst x y (c # cs) = (if c = x then y # cs else c # replaceFirst x y cs)"

fun finalizeProperties ::
    "(string \<Rightarrow> string) \<Rightarrow> char \<Rightarrow> (PropertyName \<times> string) list \<Rightarrow> (PropertyName \<times> string) list"
  where
  "finalizeProperties rel dirSep [] = []"
| "finalizeProperties rel dirSep ((name, v) # properties) =
     (if name \<noteq> PackageInstallPath then (name, v) # finalizeProperties rel dirSep properties
      else if v = [] then finalizeProperties rel dirSep properties
      else (name, replaceFirst dirSep CHR ''/'' (rel v)) # finalizeProperties rel dirSep properties)"

definition dirSepOf :: "string \<Rightarrow> char" where
  "dirSepOf rootPath = (case rootPath of [] \<Rightarrow> CHR 0x5C | c # cs \<Rightarrow> if c = CHR ''/'' then CHR ''/'' else CHR 0x5C)"

definition finalizePathProperties ::
    "BomBuilder \<Rightarrow> string \<Rightarrow> (string \<times> Component) list \<Rightarrow> (string \<times> Component) list" where
  "finalizePathProperties bb rootPath components =
     (if rootPath = [] then components
      else map (\<lambda>(k, component).
                  (k, component\<lparr> c_properties :=
                        finalizeProperties (path_relative bb (dirSepOf rootPath) rootPath)
                          (dirSepOf rootPath) (c_properties component) \<rparr>))
             components)"

section \<open>nestComponents and adjustNestedBomRefs\<close>

text \<open>
  \<open>nestComponents rootPath objects tree\<close> is \<^verbatim>\<open>nestComponents\<close> on the map that
  \<^verbatim>\<open>buildFromNpmLs\<close> hands it, all components but the root component: the lookup
  \<^verbatim>\<open>allComponents.get(p)\<close> finds the object under \<open>p\<close> unless \<open>p\<close> is the root's path.
  It returns the component objects, of which some have new \<^verbatim>\<open>components\<close>, and the
  repository \<^verbatim>\<open>children\<close>.
\<close>

definition lookupNested :: "string \<Rightarrow> (string \<times> Component) list \<Rightarrow> string \<Rightarrow> Component option" where
  "lookupNested rootPath objects p = (if p = rootPath then None else Map_get objects p)"

fun nestComponents ::
    "string \<Rightarrow> (string \<times> Component) list \<Rightarrow> PTree \<Rightarrow> (string \<times> Component) list \<times> string list"
  and nestEntries ::
    "string \<Rightarrow> (string \<times> Component) list \<Rightarrow> (string \<times> PTree) list \<Rightarrow> string list
      \<Rightarrow> (string \<times> Component) list \<times> string list" where
  "nestComponents rootPath objects (PTree tree) = nestEntries rootPath objects tree []"
| "nestEntries rootPath objects [] children = (objects, children)"
| "nestEntries rootPath objects ((p, pTree) # rest) children =
     (case nestComponents rootPath objects pTree of
        (objects1, components) \<Rightarrow>
          (case lookupNested rootPath objects p of
             None \<Rightarrow> nestEntries rootPath objects1 rest (foldl (\<lambda>cs c. Set_add c cs) children components)
           | Some component \<Rightarrow>
               nestEntries rootPath
                 (Map_modify p (\<lambda>c. c\<lparr> c_components := components \<rparr>) objects1)
                 rest (Set_add p children)))"

text \<open>
  \<^verbatim>\<open>adjustNestedBomRefs\<close> follows the \<^verbatim>\<open>components\<close> of the objects, so its recursion is
  as deep as the objects are nested. The first argument bounds the depth: \<open>None\<close> is the
  recursion that does not come to an end within it.
\<close>

fun adjustNestedBomRefs ::
    "nat \<Rightarrow> string \<Rightarrow> string \<Rightarrow> (string \<times> Component) list \<Rightarrow> (string \<times> Component) list option"
  and adjustEach ::
    "nat \<Rightarrow> string list \<Rightarrow> string \<Rightarrow> (string \<times> Component) list \<Rightarrow> (string \<times> Component) list option"
  where
  "adjustNestedBomRefs 0 component pref objects = None"
| "adjustNestedBomRefs (Suc depth) component pref objects =
     (case Map_get objects component of
        None \<Rightarrow> Some objects
      | Some c \<Rightarrow>
          (case c_bomRef c of
             None \<Rightarrow> Some objects
           | Some v \<Rightarrow>
               adjustEach depth (c_components c) (pref @ v @ ''|'')
                 (Map_modify component (\<lambda>c. c\<lparr> c_bomRef := Some (pref @ v) \<rparr>) objects)))"
| "adjustEach depth [] fill objects = Some objects"
| "adjustEach depth (c # cs) fill objects =
     (case adjustNestedBomRefs depth c fill objects of
        None \<Rightarrow> None
      | Some objects1 \<Rightarrow> adjustEach depth cs fill objects1)"

section \<open>buildFromNpmLs\<close>

text \<open>
  The document: the root component (\<^verbatim>\<open>bom.metadata.component\<close>) and the members of
  \<^verbatim>\<open>bom.components\<close>, both by install path, and the component objects they and their
  \<^verbatim>\<open>components\<close> and \<^verbatim>\<open>dependencies\<close> stand for. The tools, the serial number and the
  time stamp are left out.
\<close>

record Bom =
  bom_metadata_component :: string
  bom_components :: "string list"
  bom_objects :: "(string \<times> Component) list"

datatype BuildError = TypeError | RangeError | NotModelled

text \<open>The loop of the flatten mode over \<^verbatim>\<open>allComponents.values()\<close>.\<close>

fun flatten ::
    "string \<Rightarrow> string list \<Rightarrow> (string \<times> Component) list \<times> string list
      \<Rightarrow> (string \<times> Component) list \<times> string list" where
  "flatten rootPath [] (objects, components) = (objects, components)"
| "flatten rootPath (k # ks) (objects, components) =
     flatten rootPath ks
       (Map_modify k (\<lambda>c. c\<lparr> c_components := [] \<rparr>) objects,
        if k \<noteq> rootPath then Set_add k components else components)"

text \<open>
  \<^verbatim>\<open>buildFromNpmLs(data)\<close>, in two parts. \<open>assembleNested\<close> is its body from the making
  of the root component to \<^verbatim>\<open>rootComponent.components.clear()\<close>: it gives the component
  objects and \<^verbatim>\<open>bom.components\<close>. The depth given to \<^verbatim>\<open>adjustNestedBomRefs\<close> is the
  number of nodes of the trie, which bounds every nesting that \<^verbatim>\<open>nestComponents\<close> builds
  from a trie whose paths differ; \<open>RangeError\<close> stands for a recursion without end.
\<close>

definition assembleNested ::
    "BomBuilder \<Rightarrow> NpmLsNode \<Rightarrow> string
      \<Rightarrow> BuildError + ((string \<times> Component) list \<times> string list)" where
  "assembleNested bb data rootPath =
     (let rootComponent =
            (case makeComponent bb (props data) (Some (metaComponentType bb)) of
               Built c \<Rightarrow> c
             | _ \<Rightarrow> DummyComponent (metaComponentType bb) ''RootComponent'');
          st0 = \<lparr> allComponents = [(rootPath, rootComponent)],
                  makeComponentCalls = [props data] \<rparr>;
          st1 = gatherDependencies bb data rootPath st0;
          objects1 = finalizePathProperties bb rootPath (allComponents st1);
          tree = fromPaths (Map_keys objects1) (dirSepOf rootPath)
      in case nestComponents rootPath objects1 tree of
           (objects2, components) \<Rightarrow>
             (case adjustEach (ptreeNodes tree) components [] objects2 of
                None \<Rightarrow> Inl RangeError
              | Some objects3 \<Rightarrow>
                  Inr (Map_modify rootPath (\<lambda>c. c\<lparr> c_components := [] \<rparr>) objects3,
                       components)))"

text \<open>
  The rest is the flatten mode and the document. A root record without a string for its
  path ends in the \<^verbatim>\<open>TypeError\<close> of \<^verbatim>\<open>data.path[0]\<close> when the path is \<^verbatim>\<open>undefined\<close> or
  \<^verbatim>\<open>null\<close>, and nothing of what ran before is left; a root path of another type is
  outside this model.
\<close>

definition buildFromNpmLs :: "BomBuilder \<Rightarrow> NpmLsNode \<Rightarrow> BuildError + Bom" where
  "buildFromNpmLs bb data =
     (case raw_path (props data) of
        JSString rootPath \<Rightarrow>
          (case assembleNested bb data rootPath of
             Inl e \<Rightarrow> Inl e
           | Inr (objects4, components) \<Rightarrow>
               (case (if flattenComponents bb
                      then flatten rootPath (Map_keys objects4) (objects4, components)
                      else (objects4, components)) of
                  (objects5, components5) \<Rightarrow>
                    Inr \<lparr> bom_metadata_component = rootPath,
                          bom_components = components5,
                          bom_objects = objects5 \<rparr>))
      | JSUndefined \<Rightarrow> Inl TypeError
      | JSNull \<Rightarrow> Inl TypeError
      | _ \<Rightarrow> Inl NotModelled)"

section \<open>Sample collaborators and inputs\<close>

text \<open>
  To run the builder on a listing, the parameters of \<open>BomBuilder\<close> need values. The
  sample builder below stands for the library's component builder: it declines a record
  without a string for its name and otherwise makes a component of the record's name and
  version. The other parameters are the simplest ones: no package URL, no change by
  normalization or by the disk, and the path below the root for the relative path. The
  sample records further down have a name without a scope, a version that is a semantic
  version and a path below the root: on these the normalization raises nothing and keeps
  name and version, the library's builder takes the name for the component's name, and
  the relative path is the path below the root.
\<close>

definition emptyRecord :: RawData where
  "emptyRecord =
     \<lparr> raw_name = JSUndefined, raw_id = JSUndefined, raw_version = JSUndefined,
       raw_path = JSUndefined, raw_optional = JSUndefined, raw_optional_legacy = JSUndefined,
       raw_dev = JSUndefined, raw_development_legacy = JSUndefined,
       raw_devOptional = JSUndefined, raw_extraneous = JSUndefined, raw_private = JSUndefined,
       raw_inBundle = JSUndefined, raw_inBundle_legacy = JSUndefined,
       raw_resolved = JSUndefined, raw_resolved_legacy = JSUndefined,
       raw_integrity = JSUndefined, raw_integrity_legacy = JSUndefined \<rparr>"

definition packageRecord :: "string \<Rightarrow> string \<Rightarrow> string \<Rightarrow> RawData" where
  "packageRecord name version path =
     emptyRecord\<lparr> raw_name := JSString name, raw_version := JSString version,
                  raw_path := JSString path, raw_id := JSString (name @ ''@'' @ version) \<rparr>"

definition sampleComponentBuilder :: "RawData \<Rightarrow> ComponentType option \<Rightarrow> Component option" where
  "sampleComponentBuilder data type =
     (case raw_name data of
        JSString name \<Rightarrow>
          Some \<lparr> c_type = (case type of None \<Rightarrow> Library | Some t \<Rightarrow> t),
                 c_name = name,
                 c_group = None,
                 c_version = (case raw_version data of JSString v \<Rightarrow> Some v | _ \<Rightarrow> None),
                 c_description = None,
                 c_bomRef = None,
                 c_scope = None,
                 c_properties = [],
                 c_externalReferences = [],
                 c_purl = None,
                 c_dependencies = [],
                 c_components = [],
                 c_isDummy = False \<rparr>
      | _ \<Rightarrow> None)"

definition sampleBomBuilder :: "OmittableDependencyTypes set \<Rightarrow> bool \<Rightarrow> BomBuilder" where
  "sampleBomBuilder omit flat =
     \<lparr> componentBuilder_makeComponent = sampleComponentBuilder,
       purlFactory_makeFromComponent = (\<lambda>component reproducible. None),
       normalizePackageData = (\<lambda>data. data),
       enhancedPackageData = (\<lambda>data. data),
       path_relative = (\<lambda>dirSep rootPath p. drop (Suc (length rootPath)) p),
       metaComponentType = Application,
       packageLockOnly = False,
       omitDependencyTypes = omit,
       reproducible = True,
       flattenComponents = flat,
       shortPURLs = False \<rparr>"

text \<open>
  A project with the package \<open>a\<close> in version 1.0.0 installed twice, under its own name
  and under the alias \<open>b\<close>, and a package \<open>c\<close> below the first of the two.
\<close>

definition aliasProject :: NpmLsNode where
  "aliasProject =
     NpmLsNode (packageRecord ''proj'' ''1.0.0'' ''/proj'')
       [ (''a'', Some (NpmLsNode (packageRecord ''a'' ''1.0.0'' ''/proj/node_modules/a'')
            [ (''c'', Some (NpmLsNode
                 (packageRecord ''c'' ''2.0.0'' ''/proj/node_modules/a/node_modules/c'') [])) ])),
         (''b'', Some (NpmLsNode (packageRecord ''a'' ''1.0.0'' ''/proj/node_modules/b'') [])) ]"

text \<open>A project whose own record carries the flag \<^verbatim>\<open>dev\<close>.\<close>

definition devRootProject :: NpmLsNode where
  "devRootProject =
     NpmLsNode ((packageRecord ''proj'' ''1.0.0'' ''/proj'')\<lparr> raw_dev := JSBool True \<rparr>) []"

text \<open>A record with the flags \<^verbatim>\<open>devOptional\<close> and \<^verbatim>\<open>optional\<close>, and one with the first only.\<close>

definition devOptionalRecord :: RawData where
  "devOptionalRecord =
     (packageRecord ''x'' ''1.0.0'' ''/proj/node_modules/x'')\<lparr> raw_devOptional := JSBool True \<rparr>"

definition devOptionalAndOptionalRecord :: RawData where
  "devOptionalAndOptionalRecord = devOptionalRecord\<lparr> raw_optional := JSBool True \<rparr>"

text \<open>
  A state of the walk in which the package \<open>a\<close> has a component already, and a record
  with the flag \<^verbatim>\<open>optional\<close> and a dependency of its own.
\<close>

definition reuseState :: WalkState where
  "reuseState =
     \<lparr> allComponents =
         [ (''/proj'', DummyComponent Application ''RootComponent''),
           (''/proj/node_modules/a'', DummyComponent Library ''a'') ],
       makeComponentCalls = [] \<rparr>"

definition optionalNode :: NpmLsNode where
  "optionalNode =
     NpmLsNode ((packageRecord ''x'' ''1.0.0'' ''/proj/node_modules/x'')\<lparr> raw_optional := JSBool True \<rparr>)
       [ (''y'', Some (NpmLsNode (packageRecord ''y'' ''1.0.0'' ''/proj/node_modules/y'') [])) ]"



section \<open>Vocabulary of the statements\<close>

text \<open>
  The walk, the nesting and the adjustment change four fields of a component object
  that exists: its dependencies, its properties, its components and the value of its
  \<^verbatim>\<open>bomRef\<close>. \<open>core\<close> is the component without them.
\<close>

definition core :: "Component \<Rightarrow> Component" where
  "core c = c\<lparr> c_dependencies := [], c_properties := [], c_components := [], c_bomRef := None \<rparr>"

text \<open>
  \<open>keepsComponents st st'\<close>: every path that is a key of the map in \<open>st\<close> is a key in
  \<open>st'\<close>, of the same component but for its dependencies.
\<close>

definition keepsComponents :: "WalkState \<Rightarrow> WalkState \<Rightarrow> bool" where
  "keepsComponents st st' =
     (\<forall>p c. Map_get (allComponents st) p = Some c \<longrightarrow>
        (\<exists>c'. Map_get (allComponents st') p = Some c'
              \<and> c'\<lparr> c_dependencies := c_dependencies c \<rparr> = c))"

text \<open>The component that a finished build holds under a path.\<close>

definition builtComponent :: "BuildError + Bom \<Rightarrow> string \<Rightarrow> Component option" where
  "builtComponent r p = (case r of Inl e \<Rightarrow> None | Inr bom \<Rightarrow> Map_get (bom_objects bom) p)"

definition builtForest :: "BuildError + Bom \<Rightarrow> string list" where
  "builtForest r = (case r of Inl e \<Rightarrow> [] | Inr bom \<Rightarrow> bom_components bom)"

text \<open>
  \<open>sameCoreObjects m m'\<close>: the two maps have the same keys in the same order, and under
  every key the same component but for the four fields.
\<close>

definition sameCoreObjects :: "(string \<times> Component) list \<Rightarrow> (string \<times> Component) list \<Rightarrow> bool" where
  "sameCoreObjects m m' =
     (Map_keys m' = Map_keys m
      \<and> (\<forall>p. map_option core (Map_get m' p) = map_option core (Map_get m p)))"

definition clearComponents :: "Component \<Rightarrow> Component" where
  "clearComponents c = c\<lparr> c_components := [] \<rparr>"

definition builtBom :: "BuildError + Bom \<Rightarrow> Bom" where
  "builtBom r =
     (case r of
        Inl e \<Rightarrow> \<lparr> bom_metadata_component = [], bom_components = [], bom_objects = [] \<rparr>
      | Inr bom \<Rightarrow> bom)"

text \<open>
  The keys of all nodes of a trie, the pairs of a node's key and the key of a node below
  it (\<open>nestedPairs\<close>) or right below it (\<open>childPairs\<close>), and the key lists of the maps of
  the trie, whose members are siblings (\<open>siblingGroups\<close>).
\<close>

fun allKeys :: "PTree \<Rightarrow> string list" where
  "allKeys (PTree es) = concat (map (\<lambda>e. fst e # allKeys (snd e)) es)"

fun nestedPairs :: "PTree \<Rightarrow> (string \<times> string) list" where
  "nestedPairs (PTree es) =
     concat (map (\<lambda>e. map (Pair (fst e)) (allKeys (snd e)) @ nestedPairs (snd e)) es)"

fun childPairs :: "PTree \<Rightarrow> (string \<times> string) list" where
  "childPairs (PTree es) =
     concat (map (\<lambda>e. map (Pair (fst e)) (map fst (entries (snd e))) @ childPairs (snd e)) es)"

fun siblingGroups :: "PTree \<Rightarrow> string list list" where
  "siblingGroups (PTree es) = map fst es # concat (map (\<lambda>e. siblingGroups (snd e)) es)"

definition siblings :: "PTree \<Rightarrow> string \<Rightarrow> string \<Rightarrow> bool" where
  "siblings t p q = (\<exists>g \<in> set (siblingGroups t). p \<in> set g \<and> q \<in> set g)"

text \<open>
  Before \<^verbatim>\<open>renderPR\<close> the keys of the trie are pieces of the keys it started with. The full
  key of a node is what the keys on the way to it add up to, after a prefix \<open>pref\<close>.
\<close>

fun fullKeys :: "string \<Rightarrow> PTree \<Rightarrow> string list" where
  "fullKeys pref (PTree es) =
     concat (map (\<lambda>e. (pref @ fst e) # fullKeys (pref @ fst e) (snd e)) es)"

text \<open>
  \<open>wellKeyed S dirSeparator pref t\<close>: every key of \<open>t\<close> is a piece that is not empty and
  ends with the separator, and every full key is a member of \<open>S\<close>.
\<close>

fun wellKeyed :: "string set \<Rightarrow> char \<Rightarrow> string \<Rightarrow> PTree \<Rightarrow> bool" where
  "wellKeyed S dirSeparator pref (PTree es) =
     (\<forall>e \<in> set es. fst e \<noteq> [] \<and> last (fst e) = dirSeparator \<and> pref @ fst e \<in> S
        \<and> wellKeyed S dirSeparator (pref @ fst e) (snd e))"

text \<open>
  What \<^verbatim>\<open>renderPR\<close> makes of a trie when no key it stores meets a key that is in the map
  already: every key becomes the full key without its last character.
\<close>

fun fullPathKeys :: "string \<Rightarrow> PTree \<Rightarrow> PTree" where
  "fullPathKeys pref (PTree es) =
     PTree (map (\<lambda>e. (butlast (pref @ fst e), fullPathKeys (pref @ fst e) (snd e))) es)"

text \<open>The property of a rendered trie below a prefix, and of one entry of it.\<close>

definition renderedEntry :: "string set \<Rightarrow> char \<Rightarrow> string \<Rightarrow> string \<times> PTree \<Rightarrow> bool" where
  "renderedEntry S dirSeparator pref e =
     ((\<forall>q \<in> set (fst e # allKeys (snd e)).
          q @ [dirSeparator] \<in> S \<and> strict_prefix pref (q @ [dirSeparator]))
      \<and> (\<forall>q \<in> set (allKeys (snd e)). strict_prefix (fst e @ [dirSeparator]) (q @ [dirSeparator]))
      \<and> (\<forall>pq \<in> set (nestedPairs (snd e)).
            strict_prefix (fst pq @ [dirSeparator]) (snd pq @ [dirSeparator])))"













section \<open>Facts about the containers\<close>

lemma Map_get_Map_modify:
  "Map_get (Map_modify k f m) p = (if p = k then map_option f (Map_get m p) else Map_get m p)"
  by (induction m) auto

lemma Map_get_Map_set: "Map_get (Map_set k v m) p = (if p = k then Some v else Map_get m p)"
  by (induction m) auto

lemma Map_keys_Map_modify [simp]: "Map_keys (Map_modify k f m) = Map_keys m"
  by (induction m) (auto simp: Map_keys_def)

lemma Map_get_None_iff: "Map_get m k = None \<longleftrightarrow> k \<notin> set (Map_keys m)"
  by (induction m) (force simp: Map_keys_def split: if_splits)+

lemma Map_keys_Map_set:
  "Map_keys (Map_set k v m) = (if k \<in> set (Map_keys m) then Map_keys m else Map_keys m @ [k])"
  by (induction m) (force simp: Map_keys_def split: if_splits)+

lemma distinct_Map_set: "distinct (Map_keys m) \<Longrightarrow> distinct (Map_keys (Map_set k v m))"
  by (simp add: Map_keys_Map_set)

section \<open>The omission policy of makeComponent\<close>

lemma makeComponent_Skip_iff:
  "makeComponent bb data type = Skip \<longleftrightarrow>
     (coalesce (raw_optional data) (raw_optional_legacy data) = JSBool True
        \<and> Optional \<in> omitDependencyTypes bb)
   \<or> (coalesce (raw_dev data) (raw_development_legacy data) = JSBool True
        \<and> Dev \<in> omitDependencyTypes bb)
   \<or> (raw_devOptional data = JSBool True
        \<and> Dev \<in> omitDependencyTypes bb \<and> Optional \<in> omitDependencyTypes bb)"
  unfolding makeComponent_def Let_def
  by (simp split: option.splits)

lemma omitDependencyTypes_sample [simp]:
  "omitDependencyTypes (sampleBomBuilder omit flat) = omit"
  by (simp add: sampleBomBuilder_def)

text \<open>
  Claim C2, as amended. For a record with \<^verbatim>\<open>devOptional = true\<close> that is flagged neither
  optional nor dev itself (the legacy fields included), \<^verbatim>\<open>makeComponent\<close> returns the skip
  signal exactly when both \<^verbatim>\<open>dev\<close> and \<^verbatim>\<open>optional\<close> are in the omission set.
\<close>

theorem devOptional_skip:
  assumes "raw_devOptional data = JSBool True"
    and "coalesce (raw_optional data) (raw_optional_legacy data) \<noteq> JSBool True"
    and "coalesce (raw_dev data) (raw_development_legacy data) \<noteq> JSBool True"
  shows "makeComponent bb data type = Skip
           \<longleftrightarrow> Dev \<in> omitDependencyTypes bb \<and> Optional \<in> omitDependencyTypes bb"
  using assms by (simp add: makeComponent_Skip_iff)

text \<open>
  The three omission sets of the claim on a record with the flag \<^verbatim>\<open>devOptional\<close> alone:
  excluded under \<open>{dev, optional}\<close>, kept under \<open>{dev}\<close> and under \<open>{optional}\<close>.
\<close>

theorem devOptional_skip_witness:
  "makeComponent (sampleBomBuilder {Dev, Optional} False) devOptionalRecord None = Skip
   \<and> makeComponent (sampleBomBuilder {Dev} False) devOptionalRecord None \<noteq> Skip
   \<and> makeComponent (sampleBomBuilder {Optional} False) devOptionalRecord None \<noteq> Skip"
proof -
  have f: "raw_devOptional devOptionalRecord = JSBool True"
    "coalesce (raw_optional devOptionalRecord) (raw_optional_legacy devOptionalRecord)
       \<noteq> JSBool True"
    "coalesce (raw_dev devOptionalRecord) (raw_development_legacy devOptionalRecord)
       \<noteq> JSBool True"
    by (simp_all add: devOptionalRecord_def packageRecord_def emptyRecord_def coalesce_def)
  show ?thesis
    using devOptional_skip[OF f, of "sampleBomBuilder {Dev, Optional} False" None]
      devOptional_skip[OF f, of "sampleBomBuilder {Dev} False" None]
      devOptional_skip[OF f, of "sampleBomBuilder {Optional} False" None]
    by simp
qed

text \<open>
  Claim C2 as it is written fails on a record that carries \<^verbatim>\<open>optional = true\<close> beside
  \<^verbatim>\<open>devOptional = true\<close>: under the omission set \<open>{optional}\<close>, which does not hold
  \<^verbatim>\<open>dev\<close>, the test of the optional flag comes first and the record is skipped.
\<close>

theorem devOptional_skip_counterexample:
  "raw_devOptional devOptionalAndOptionalRecord = JSBool True
   \<and> makeComponent (sampleBomBuilder {Optional} False) devOptionalAndOptionalRecord None = Skip
   \<and> Dev \<notin> omitDependencyTypes (sampleBomBuilder {Optional} False)"
  by (simp add: makeComponent_Skip_iff devOptionalAndOptionalRecord_def devOptionalRecord_def
      packageRecord_def emptyRecord_def coalesce_def)

section \<open>The integrity hash\<close>

lemma base64_codes:
  "map char_of ([65..<91] @ [97..<123] @ [48..<58] @ [43, 47 :: nat]) =
     ''ABCDEFGHIJKLMNOPQRSTUVWXYZabcdefghijklmnopqrstuvwxyz0123456789+/''"
  by code_simp

lemma isBase64Char_alphabet:
  assumes "isBase64Char c"
  shows "c \<in> set base64Alphabet"
proof -
  define n :: nat where "n = of_char c"
  have c: "c = char_of n" by (simp add: n_def)
  have "n \<in> {65..<91} \<union> {97..<123} \<union> {48..<58} \<union> {43, 47}"
    using assms unfolding isBase64Char_def less_eq_char_def n_def by auto
  also have "\<dots> = set ([65..<91] @ [97..<123] @ [48..<58] @ [43, 47])"
    by (simp only: set_append set_upt list.set Un_insert_right Un_empty_right Un_assoc)
  finally have "char_of n \<in> set (map char_of ([65..<91] @ [97..<123] @ [48..<58] @ [43, 47 :: nat]))"
    by (simp only: set_map) (rule imageI)
  then show ?thesis
    by (simp only: base64_codes c base64Alphabet_def)
qed

lemma isBase64Char_not_pad: "isBase64Char c \<Longrightarrow> c \<noteq> CHR ''=''"
  by (auto simp: isBase64Char_def)

lemma indexOf_Some: "c \<in> set xs \<Longrightarrow> \<exists>i. indexOf c xs = Some i"
  by (induction xs) auto

lemma unbase64_Some: "isBase64Char c \<Longrightarrow> \<exists>v. unbase64 c = Some v"
  using indexOf_Some[OF isBase64Char_alphabet] by (auto simp: unbase64_def)

lemma length_base64Sextets:
  "list_all isBase64Char payload \<Longrightarrow> length (base64Sextets (payload @ CHR ''='' # pad)) = length payload"
proof (induction payload)
  case Nil
  then show ?case by simp
next
  case (Cons c cs)
  then have "isBase64Char c" by simp
  from unbase64_Some[OF this] isBase64Char_not_pad[OF this] Cons show ?case by auto
qed

lemma length_base64Bytes: "length (base64Bytes xs) = (length xs * 3) div 4"
  by (induction xs rule: base64Bytes.induct) auto

lemma length_Buffer_toString_hex: "length (Buffer_toString_hex bytes) = 2 * length bytes"
  by (induction bytes) (auto simp: Buffer_toString_hex_def)

lemma hexDigit_lower: "hexDigit n \<in> set ''0123456789abcdef''"
  unfolding hexDigit_def by (rule nth_mem) simp

lemma set_Buffer_toString_hex: "set (Buffer_toString_hex bytes) \<subseteq> set ''0123456789abcdef''"
proof
  fix x
  assume "x \<in> set (Buffer_toString_hex bytes)"
  then obtain b where "x = hexDigit (b div 16) \<or> x = hexDigit b"
    by (auto simp: Buffer_toString_hex_def)
  then show "x \<in> set ''0123456789abcdef''"
    using hexDigit_lower[of "b div 16"] hexDigit_lower[of b] by blast
qed

lemma RegExp_exec_sha512:
  assumes "length payload = 86" and "list_all isBase64Char payload"
  shows "RegExp_exec (''sha512-'', 86, ''=='') (''sha512-'' @ payload @ ''=='')
           = Some [''sha512-'' @ payload @ ''=='', payload @ ''==''] "
  using assms by (simp add: RegExp_exec_def toLowerCase_def)

text \<open>
  Claim C6. An integrity string \<^verbatim>\<open>sha512-\<close>, 86 characters of the base64 alphabet and
  \<^verbatim>\<open>==\<close> gives exactly one hash, for SHA-512, whose value is the hexadecimal writing of
  the decoded bytes: 128 characters, each a digit or a letter from \<open>a\<close> to \<open>f\<close>. An integrity
  string that none of the four patterns matches gives no hash; the loop has no branch that
  raises.
\<close>

theorem sha512_integrity:
  "(length payload = 86 \<and> list_all isBase64Char payload \<longrightarrow>
      integrityHashes integrityRE (''sha512-'' @ payload @ ''=='') []
        = [(SHA_512, Buffer_toString_hex (Buffer_from_base64 (payload @ ''=='')))]
      \<and> length (Buffer_toString_hex (Buffer_from_base64 (payload @ ''==''))) = 128
      \<and> set (Buffer_toString_hex (Buffer_from_base64 (payload @ ''==''))) \<subseteq> set ''0123456789abcdef'')
   \<and> ((\<forall>re \<in> set integrityRE. RegExp_exec (snd re) integrity = None) \<longrightarrow>
        integrityHashes integrityRE integrity [] = [])"
proof (intro conjI impI)
  assume a: "length payload = 86 \<and> list_all isBase64Char payload"
  show "integrityHashes integrityRE (''sha512-'' @ payload @ ''=='') []
        = [(SHA_512, Buffer_toString_hex (Buffer_from_base64 (payload @ ''=='')))]"
    using RegExp_exec_sha512[of payload] a
    by (simp add: integrityRE_def del: append.simps)
  have "length (base64Sextets (payload @ ''=='')) = 86"
    using length_base64Sextets[of payload "''=''"] a by simp
  then show "length (Buffer_toString_hex (Buffer_from_base64 (payload @ ''==''))) = 128"
    by (simp add: length_Buffer_toString_hex Buffer_from_base64_def length_base64Bytes)
  show "set (Buffer_toString_hex (Buffer_from_base64 (payload @ ''==''))) \<subseteq> set ''0123456789abcdef''"
    by (rule set_Buffer_toString_hex)
next
  assume "\<forall>re \<in> set integrityRE. RegExp_exec (snd re) integrity = None"
  then show "integrityHashes integrityRE integrity [] = []"
    by (simp add: integrityRE_def)
qed

theorem sha512_integrity_witness:
  "integrityHashes integrityRE
     ''sha512-zvj65TkFeIt3i6aj5bIvJDzjjQQGs4o/sNoezg1F1kYap9Nu2jcUdpwzRSJTHMMzG0H7bZkn4rNQpImhuxWX2A=='' []
     = [(SHA_512, ''cef8fae53905788b778ba6a3e5b22f243ce38d0406b38a3fb0da1ece0d45d6461aa7d36eda3714769c334522531cc3331b41fb6d9927e2b350a489a1bb1597d8'')]
   \<and> integrityHashes integrityRE ''sha512-tooshort=='' [] = []"
proof -
  let ?p = "''zvj65TkFeIt3i6aj5bIvJDzjjQQGs4o/sNoezg1F1kYap9Nu2jcUdpwzRSJTHMMzG0H7bZkn4rNQpImhuxWX2A''"
  have h1: "length ?p = 86 \<and> list_all isBase64Char ?p"
    by code_simp
  have h2: "\<forall>re \<in> set integrityRE. RegExp_exec (snd re) ''sha512-tooshort=='' = None"
    by code_simp
  have v: "Buffer_toString_hex (Buffer_from_base64 (?p @ ''==''))
             = ''cef8fae53905788b778ba6a3e5b22f243ce38d0406b38a3fb0da1ece0d45d6461aa7d36eda3714769c334522531cc3331b41fb6d9927e2b350a489a1bb1597d8''"
    by code_simp
  from sha512_integrity[of ?p "''sha512-tooshort==''"] h1 h2 v show ?thesis
    by simp
qed

section \<open>The walk\<close>

text \<open>
  Whatever relation between states holds for the steps of the walk, the adding of an edge
  and the resolving of one entry, and is reflexive and transitive, holds between the
  state before and the state after the walk.
\<close>

lemma gather_steps:
  assumes refl: "\<And>st. R st st"
    and trans: "\<And>a b c. R a b \<Longrightarrow> R b c \<Longrightarrow> R a c"
    and dep: "\<And>st parent p. R st (addDependency parent p st)"
    and res: "\<And>bb st depName d p. R st (fst (resolveDependency bb depName d p st))"
  shows "R st (gatherDependencies bb data parent st)"
    and "R st (gatherEntries bb deps parent st)"
proof (induction bb data parent st and bb deps parent st
    rule: gatherDependencies_gatherEntries.induct)
  case (1 bb data deps parent st)
  then show ?case by simp
next
  case (2 bb parent st)
  show ?case by (simp add: refl)
next
  case (3 bb depName rest parent st)
  then show ?case by simp
next
  case (4 bb depName depData rest parent st)
  show ?case
  proof (cases "raw_path (props depData)")
    case (JSString p)
    obtain st1 b where r: "resolveDependency bb depName (props depData) p st = (st1, b)"
      by (cases "resolveDependency bb depName (props depData) p st")
    have s1: "R st st1" using res[of st bb depName "props depData" p] r by simp
    show ?thesis
    proof (cases b)
      case True
      then have True: "b = True" by simp
      have "R st1 (addDependency parent p st1)" by (rule dep)
      moreover have "R (addDependency parent p st1)
                       (gatherDependencies bb depData p (addDependency parent p st1))"
        using "4.IH"(4)[OF JSString r[symmetric] True] .
      moreover have "R (gatherDependencies bb depData p (addDependency parent p st1))
          (gatherEntries bb rest parent (gatherDependencies bb depData p (addDependency parent p st1)))"
        using "4.IH"(5)[OF JSString r[symmetric] True] .
      ultimately have "R st (gatherEntries bb rest parent
          (gatherDependencies bb depData p (addDependency parent p st1)))"
        using s1 trans by blast
      then show ?thesis using JSString r True by simp
    next
      case False
      then have False: "b = False" by simp
      have "R st1 (gatherEntries bb rest parent st1)"
        using "4.IH"(6)[OF JSString r[symmetric] False] .
      with s1 have "R st (gatherEntries bb rest parent st1)" using trans by blast
      then show ?thesis using JSString r False by simp
    qed
  qed (use 4 in simp_all)
qed

lemma keepsComponents_refl: "keepsComponents st st"
  by (simp add: keepsComponents_def)

lemma keepsComponents_trans:
  assumes "keepsComponents a b" and "keepsComponents b c"
  shows "keepsComponents a c"
  unfolding keepsComponents_def
proof (intro allI impI)
  fix p x
  assume "Map_get (allComponents a) p = Some x"
  then obtain y where y: "Map_get (allComponents b) p = Some y" "y\<lparr>c_dependencies := c_dependencies x\<rparr> = x"
    using assms(1) unfolding keepsComponents_def by blast
  then obtain z where z: "Map_get (allComponents c) p = Some z" "z\<lparr>c_dependencies := c_dependencies y\<rparr> = y"
    using assms(2) unfolding keepsComponents_def by blast
  have "z\<lparr>c_dependencies := c_dependencies x\<rparr> = (z\<lparr>c_dependencies := c_dependencies y\<rparr>)\<lparr>c_dependencies := c_dependencies x\<rparr>"
    by simp
  also have "\<dots> = x" using y(2) z(2) by simp
  finally show "\<exists>c'. Map_get (allComponents c) p = Some c' \<and> c'\<lparr>c_dependencies := c_dependencies x\<rparr> = x"
    using z(1) by blast
qed

lemma keepsComponents_addDependency: "keepsComponents st (addDependency parent p st)"
  by (auto simp: keepsComponents_def addDependency_def Map_get_Map_modify)

lemma keepsComponents_resolveDependency:
  "keepsComponents st (fst (resolveDependency bb depName d p st))"
  by (auto simp: keepsComponents_def resolveDependency_def Map_get_Map_set Let_def
      split: option.splits MakeComponentResult.splits)

lemma gather_keepsComponents: "keepsComponents st (gatherDependencies bb data parent st)"
  by (rule gather_steps(1)[where R = keepsComponents])
    (rule keepsComponents_refl keepsComponents_trans keepsComponents_addDependency
      keepsComponents_resolveDependency; assumption)+

lemma gather_distinct:
  "distinct (Map_keys (allComponents st)) \<longrightarrow>
   distinct (Map_keys (allComponents (gatherDependencies bb data parent st)))"
  by (rule gather_steps(1)[where
        R = "\<lambda>st st'. distinct (Map_keys (allComponents st)) \<longrightarrow> distinct (Map_keys (allComponents st'))"])
    (auto simp: addDependency_def resolveDependency_def Let_def distinct_Map_set
      split: option.splits MakeComponentResult.splits)

text \<open>
  Claim C1. The walk leaves every install path a key of the map once; a path that is a key
  before the walk of a record (or of the whole tree) is afterwards the key of the same
  component, of which only the dependencies may have grown; and an entry whose path is a
  key already is not handed to \<^verbatim>\<open>makeComponent\<close> and stores nothing: the body adds the edge
  from the parent to the component under that path and goes on into the entry's own
  dependencies.
\<close>

theorem gather_reuses_components:
  "(distinct (Map_keys (allComponents st)) \<longrightarrow>
      distinct (Map_keys (allComponents (gatherDependencies bb data parent st))))
   \<and> keepsComponents st (gatherDependencies bb data parent st)
   \<and> (raw_path (props depData) = JSString p \<and> Map_get (allComponents st) p = Some dep \<longrightarrow>
        gatherEntries bb ((depName, Some depData) # rest) parent st
          = gatherEntries bb rest parent
              (gatherDependencies bb depData p (addDependency parent p st))
        \<and> makeComponentCalls (addDependency parent p st) = makeComponentCalls st
        \<and> allComponents (addDependency parent p st)
            = Map_modify parent (\<lambda>c. c\<lparr> c_dependencies := Set_add p (c_dependencies c) \<rparr>)
                (allComponents st))"
  using gather_distinct[of st bb data parent] gather_keepsComponents[of st bb data parent]
  by (simp add: resolveDependency_def addDependency_def)

theorem gather_reuses_components_witness:
  "distinct (Map_keys (allComponents (gatherDependencies (sampleBomBuilder {} False) aliasProject
      ''/proj'' reuseState)))
   \<and> keepsComponents reuseState
        (gatherDependencies (sampleBomBuilder {} False) aliasProject ''/proj'' reuseState)
   \<and> gatherEntries (sampleBomBuilder {} False)
        [(''a'', Some (NpmLsNode (packageRecord ''a'' ''1.0.0'' ''/proj/node_modules/a'') []))]
        ''/proj'' reuseState
       = gatherEntries (sampleBomBuilder {} False) [] ''/proj''
           (gatherDependencies (sampleBomBuilder {} False)
              (NpmLsNode (packageRecord ''a'' ''1.0.0'' ''/proj/node_modules/a'') [])
              ''/proj/node_modules/a''
              (addDependency ''/proj'' ''/proj/node_modules/a'' reuseState))
   \<and> makeComponentCalls (gatherEntries (sampleBomBuilder {} False)
        [(''a'', Some (NpmLsNode (packageRecord ''a'' ''1.0.0'' ''/proj/node_modules/a'') []))]
        ''/proj'' reuseState) = []"
proof -
  have d: "distinct (Map_keys (allComponents reuseState))"
    by (simp add: reuseState_def Map_keys_def)
  have p: "raw_path (props (NpmLsNode (packageRecord ''a'' ''1.0.0'' ''/proj/node_modules/a'') []))
             = JSString ''/proj/node_modules/a''
           \<and> Map_get (allComponents reuseState) ''/proj/node_modules/a''
             = Some (DummyComponent Library ''a'')"
    by (simp add: reuseState_def packageRecord_def emptyRecord_def)
  have c: "makeComponentCalls (gatherEntries (sampleBomBuilder {} False)
        [(''a'', Some (NpmLsNode (packageRecord ''a'' ''1.0.0'' ''/proj/node_modules/a'') []))]
        ''/proj'' reuseState) = []"
    by code_simp
  from gather_reuses_components[of reuseState "sampleBomBuilder {} False" aliasProject "''/proj''"
      "NpmLsNode (packageRecord ''a'' ''1.0.0'' ''/proj/node_modules/a'') []"
      "''/proj/node_modules/a''" "DummyComponent Library ''a''" "''a''" "[]"] d p c
  show ?thesis by simp
qed

lemma gatherEntries_all_skipped:
  assumes "\<forall>e \<in> set deps. \<exists>d p. snd e = Some d \<and> raw_path (props d) = JSString p
             \<and> Map_get (allComponents st) p = None \<and> makeComponent bb (props d) None = Skip"
  shows "gatherEntries bb deps parent st
           = st\<lparr> makeComponentCalls :=
                  makeComponentCalls st @ map (\<lambda>e. props (the (snd e))) deps \<rparr>"
  using assms
proof (induction deps arbitrary: st)
  case Nil
  show ?case by simp
next
  case (Cons e deps)
  obtain n d p where e: "e = (n, Some d)" "raw_path (props d) = JSString p"
    "Map_get (allComponents st) p = None" "makeComponent bb (props d) None = Skip"
    using Cons.prems by (cases e) auto
  let ?st = "st\<lparr> makeComponentCalls := makeComponentCalls st @ [props d] \<rparr>"
  have "gatherEntries bb (e # deps) parent st = gatherEntries bb deps parent ?st"
    using e by (simp add: resolveDependency_def)
  also have "\<dots> = ?st\<lparr> makeComponentCalls :=
      makeComponentCalls ?st @ map (\<lambda>e. props (the (snd e))) deps \<rparr>"
    using Cons.prems by (intro Cons.IH) simp
  finally show ?case using e by simp
qed

text \<open>
  Claim C7. An entry whose path is not yet a key and whose record \<^verbatim>\<open>makeComponent\<close> answers
  with the skip signal changes nothing but the record of the calls: no edge from the
  parent, no component under the path, no walk into the entry's own dependencies. The
  path is no key afterwards either, so every later entry with that path is handed to
  \<^verbatim>\<open>makeComponent\<close> again: a list of entries that are all skipped leaves the map as it is
  and calls \<^verbatim>\<open>makeComponent\<close> once for each of them.
\<close>

theorem skipped_edge:
  "(raw_path (props depData) = JSString p \<and> Map_get (allComponents st) p = None
      \<and> makeComponent bb (props depData) None = Skip \<longrightarrow>
        gatherEntries bb ((depName, Some depData) # rest) parent st
          = gatherEntries bb rest parent
              (st\<lparr> makeComponentCalls := makeComponentCalls st @ [props depData] \<rparr>))
   \<and> ((\<forall>e \<in> set deps. \<exists>d q. snd e = Some d \<and> raw_path (props d) = JSString q
          \<and> Map_get (allComponents st) q = None \<and> makeComponent bb (props d) None = Skip) \<longrightarrow>
        gatherEntries bb deps parent st
          = st\<lparr> makeComponentCalls :=
                 makeComponentCalls st @ map (\<lambda>e. props (the (snd e))) deps \<rparr>)"
  using gatherEntries_all_skipped[of deps st bb parent]
  by (simp add: resolveDependency_def)

theorem skipped_edge_witness:
  "gatherEntries (sampleBomBuilder {Optional} False)
     [(''x'', Some optionalNode), (''x'', Some optionalNode)] ''/proj'' reuseState
     = reuseState\<lparr> makeComponentCalls := [props optionalNode, props optionalNode] \<rparr>"
proof -
  have h: "\<forall>e \<in> set [(''x'', Some optionalNode), (''x'', Some optionalNode)].
             \<exists>d q. snd e = Some d \<and> raw_path (props d) = JSString q
               \<and> Map_get (allComponents reuseState) q = None
               \<and> makeComponent (sampleBomBuilder {Optional} False) (props d) None = Skip"
    by (simp add: optionalNode_def packageRecord_def emptyRecord_def reuseState_def
        makeComponent_Skip_iff coalesce_def)
  have "makeComponentCalls reuseState = []" by (simp add: reuseState_def)
  with skipped_edge[of optionalNode "''/proj/node_modules/x''" reuseState
      "sampleBomBuilder {Optional} False" "''x''" "[]" "''/proj''"
      "[(''x'', Some optionalNode), (''x'', Some optionalNode)]"] h
  show ?thesis by simp
qed

section \<open>What the later phases change\<close>

text \<open>
  The finalizing of the path properties, the nesting, the adjustment and the flatten loop
  keep the keys of the map and, under every key, the component but for the four fields.
\<close>

lemma core_update [simp]:
  "core (c\<lparr> c_dependencies := d \<rparr>) = core c"
  "core (c\<lparr> c_properties := ps \<rparr>) = core c"
  "core (c\<lparr> c_components := cs \<rparr>) = core c"
  "core (c\<lparr> c_bomRef := r \<rparr>) = core c"
  "core (clearComponents c) = core c"
  by (simp_all add: core_def clearComponents_def)

lemma map_option_core:
  "(\<And>c. core (g c) = core c) \<Longrightarrow> map_option core (map_option g x) = map_option core x"
  by (cases x) auto

lemma sameCoreObjects_refl: "sameCoreObjects m m"
  by (simp add: sameCoreObjects_def)

lemma sameCoreObjects_trans:
  "sameCoreObjects a b \<Longrightarrow> sameCoreObjects b c \<Longrightarrow> sameCoreObjects a c"
  by (simp add: sameCoreObjects_def)

lemma sameCoreObjects_modify:
  assumes "\<And>c. core (f c) = core c"
  shows "sameCoreObjects m (Map_modify k f m)"
  using assms by (simp add: sameCoreObjects_def Map_get_Map_modify map_option_core)

lemma Map_get_map_values:
  "Map_get (map (\<lambda>(k, c). (k, g c)) m) p = map_option g (Map_get m p)"
  by (induction m) auto

lemma sameCoreObjects_finalize: "sameCoreObjects m (finalizePathProperties bb rootPath m)"
proof -
  have "Map_keys (finalizePathProperties bb rootPath m) = Map_keys m"
    by (induction m) (auto simp: finalizePathProperties_def Map_keys_def)
  then show ?thesis
    by (simp add: sameCoreObjects_def finalizePathProperties_def Map_get_map_values
        map_option_core)
qed

lemma sameCoreObjects_nest:
  "sameCoreObjects m (fst (nestComponents rootPath m t))"
  "sameCoreObjects m (fst (nestEntries rootPath m es children))"
proof (induction rootPath m t and rootPath m es children rule: nestComponents_nestEntries.induct)
  case (1 rootPath objects tree)
  then show ?case by simp
next
  case (2 rootPath objects children)
  show ?case by (simp add: sameCoreObjects_refl)
next
  case (3 rootPath objects p pTree rest children)
  obtain objects1 components where n: "nestComponents rootPath objects pTree = (objects1, components)"
    by (cases "nestComponents rootPath objects pTree")
  have s1: "sameCoreObjects objects objects1" using "3.IH"(1) n by simp
  show ?case
  proof (cases "lookupNested rootPath objects p")
    case None
    have "sameCoreObjects objects1
            (fst (nestEntries rootPath objects1 rest (foldl (\<lambda>cs c. Set_add c cs) children components)))"
      using "3.IH"(2)[OF n[symmetric] None] .
    with s1 show ?thesis using n None by (simp add: sameCoreObjects_trans)
  next
    case (Some component)
    let ?o = "Map_modify p (\<lambda>c. c\<lparr>c_components := components\<rparr>) objects1"
    have "sameCoreObjects objects1 ?o"
      by (rule sameCoreObjects_modify) simp
    moreover have "sameCoreObjects ?o (fst (nestEntries rootPath ?o rest (Set_add p children)))"
      using "3.IH"(3)[OF n[symmetric] Some] .
    ultimately have "sameCoreObjects objects (fst (nestEntries rootPath ?o rest (Set_add p children)))"
      using s1 sameCoreObjects_trans by blast
    then show ?thesis using n Some by simp
  qed
qed

lemma sameCoreObjects_adjust:
  "adjustNestedBomRefs depth component pref m = Some m' \<Longrightarrow> sameCoreObjects m m'"
  "adjustEach depth cs fill m = Some m' \<Longrightarrow> sameCoreObjects m m'"
proof (induction depth component pref m and depth cs fill m arbitrary: m' and m'
    rule: adjustNestedBomRefs_adjustEach.induct)
  case (1 component pref objects)
  then show ?case by simp
next
  case (2 depth component pref objects)
  show ?case
  proof (cases "Map_get objects component")
    case None
    then show ?thesis using "2.prems" by (simp add: sameCoreObjects_refl)
  next
    case (Some c)
    show ?thesis
    proof (cases "c_bomRef c")
      case None
      then show ?thesis using "2.prems" Some by (simp add: sameCoreObjects_refl)
    next
      case (Some v)
      let ?o = "Map_modify component (\<lambda>c. c\<lparr>c_bomRef := Some (pref @ v)\<rparr>) objects"
      have "sameCoreObjects objects ?o"
        by (rule sameCoreObjects_modify) simp
      moreover have "sameCoreObjects ?o m'"
        using "2.IH"[OF \<open>Map_get objects component = Some c\<close> Some] "2.prems"
          \<open>Map_get objects component = Some c\<close> Some by simp
      ultimately show ?thesis by (rule sameCoreObjects_trans)
    qed
  qed
next
  case (3 depth fill objects)
  then show ?case by (simp add: sameCoreObjects_refl)
next
  case (4 depth c cs fill objects)
  from "4.prems" obtain objects1 where a: "adjustNestedBomRefs depth c fill objects = Some objects1"
    and b: "adjustEach depth cs fill objects1 = Some m'"
    by (auto split: option.splits)
  from "4.IH"(1)[OF a] "4.IH"(2)[OF a b] show ?case by (rule sameCoreObjects_trans)
qed

lemma flatten_get:
  "Map_get (fst (flatten rootPath ks (m, cs))) p
     = (if p \<in> set ks then map_option clearComponents (Map_get m p) else Map_get m p)"
proof (induction ks arbitrary: m cs)
  case Nil
  show ?case by simp
next
  case (Cons k ks)
  show ?case
    by (cases "Map_get m p") (auto simp: Cons.IH Map_get_Map_modify clearComponents_def)
qed

lemma flatten_keys: "Map_keys (fst (flatten rootPath ks (m, cs))) = Map_keys m"
  by (induction ks arbitrary: m cs) auto

lemma flatten_forest:
  "set (snd (flatten rootPath ks (m, cs))) = set cs \<union> (set ks - {rootPath})"
  by (induction ks arbitrary: m cs) (auto simp: Set_add_def)

lemma sameCoreObjects_flatten: "sameCoreObjects m (fst (flatten rootPath ks (m, cs)))"
  by (simp add: sameCoreObjects_def flatten_keys flatten_get map_option_core)

section \<open>The build\<close>

text \<open>The flatten option is read by the flatten loop only.\<close>

lemma makeComponent_flatten_irrelevant [simp]:
  "makeComponent (bb\<lparr> flattenComponents := x \<rparr>) d t = makeComponent bb d t"
  unfolding makeComponent_def makePurl_def Let_def
  by (simp cong: JSValue.case_cong option.case_cong if_cong)

lemma resolveDependency_flatten_irrelevant [simp]:
  "resolveDependency (bb\<lparr> flattenComponents := x \<rparr>) n d p st = resolveDependency bb n d p st"
  by (simp add: resolveDependency_def cong: option.case_cong)

lemma gather_flatten_irrelevant:
  "gatherDependencies (bb\<lparr> flattenComponents := x \<rparr>) data parent st
     = gatherDependencies bb data parent st"
  "gatherEntries (bb\<lparr> flattenComponents := x \<rparr>) deps parent st = gatherEntries bb deps parent st"
proof (induction bb data parent st and bb deps parent st
    rule: gatherDependencies_gatherEntries.induct)
  case (4 bb depName depData rest parent st)
  show ?case
  proof (cases "raw_path (props depData)")
    case (JSString p)
    obtain st1 b where r: "resolveDependency bb depName (props depData) p st = (st1, b)"
      by (cases "resolveDependency bb depName (props depData) p st")
    show ?thesis
    proof (cases b)
      case True
      then have bT: "b = True" by simp
      show ?thesis
        using "4.IH"(4)[OF JSString r[symmetric] bT] "4.IH"(5)[OF JSString r[symmetric] bT]
          JSString r bT by simp
    next
      case False
      then have bF: "b = False" by simp
      show ?thesis
        using "4.IH"(6)[OF JSString r[symmetric] bF] JSString r bF by simp
    qed
  qed (use 4 in simp_all)
qed simp_all

lemma finalize_flatten_irrelevant [simp]:
  "finalizePathProperties (bb\<lparr> flattenComponents := x \<rparr>) rootPath m
     = finalizePathProperties bb rootPath m"
  by (simp add: finalizePathProperties_def)

lemma assembleNested_flatten_irrelevant:
  "assembleNested (bb\<lparr> flattenComponents := x \<rparr>) data rootPath = assembleNested bb data rootPath"
  by (simp add: assembleNested_def gather_flatten_irrelevant
      cong: MakeComponentResult.case_cong)

text \<open>The component of the root after \<open>assembleNested\<close>.\<close>

lemma assembleNested_sameCore:
  assumes "assembleNested bb data rootPath = Inr (objects4, components)"
  shows "sameCoreObjects
           (allComponents (gatherDependencies bb data rootPath
              \<lparr> allComponents =
                  [(rootPath,
                    case makeComponent bb (props data) (Some (metaComponentType bb)) of
                      Built c \<Rightarrow> c
                    | _ \<Rightarrow> DummyComponent (metaComponentType bb) ''RootComponent'')],
                makeComponentCalls = [props data] \<rparr>))
           objects4"
proof -
  define root where "root = (case makeComponent bb (props data) (Some (metaComponentType bb)) of
                     Built c \<Rightarrow> c
                   | _ \<Rightarrow> DummyComponent (metaComponentType bb) ''RootComponent'')"
  define st1 where "st1 = gatherDependencies bb data rootPath
     \<lparr> allComponents = [(rootPath, root)], makeComponentCalls = [props data] \<rparr>"
  define objects1 where "objects1 = finalizePathProperties bb rootPath (allComponents st1)"
  define tree where "tree = fromPaths (Map_keys objects1) (dirSepOf rootPath)"
  obtain objects2 cs where n: "nestComponents rootPath objects1 tree = (objects2, cs)"
    by (cases "nestComponents rootPath objects1 tree")
  have b: "assembleNested bb data rootPath =
     (case adjustEach (ptreeNodes tree) cs [] objects2 of
        None \<Rightarrow> Inl RangeError
      | Some objects3 \<Rightarrow>
          Inr (Map_modify rootPath (\<lambda>c. c\<lparr> c_components := [] \<rparr>) objects3, cs))"
    unfolding assembleNested_def
    by (simp add: Let_def root_def[symmetric] st1_def[symmetric] objects1_def[symmetric]
        tree_def[symmetric] n)
  then obtain objects3 where a: "adjustEach (ptreeNodes tree) cs [] objects2 = Some objects3"
    and o4: "objects4 = Map_modify rootPath (\<lambda>c. c\<lparr> c_components := [] \<rparr>) objects3"
    using assms by (cases "adjustEach (ptreeNodes tree) cs [] objects2") simp_all
  have "sameCoreObjects (allComponents st1) objects1"
    unfolding objects1_def by (rule sameCoreObjects_finalize)
  moreover have "sameCoreObjects objects1 objects2"
    using sameCoreObjects_nest(1)[of objects1 rootPath tree] n by simp
  moreover have "sameCoreObjects objects2 objects3"
    using sameCoreObjects_adjust(2)[OF a] .
  moreover have "sameCoreObjects objects3 objects4"
    unfolding o4 by (rule sameCoreObjects_modify) simp
  ultimately have "sameCoreObjects (allComponents st1) objects4"
    using sameCoreObjects_trans by blast
  then show ?thesis unfolding st1_def root_def .
qed

lemma buildFromNpmLs_Inr:
  assumes "buildFromNpmLs bb data = Inr bom"
  shows "\<exists>rootPath objects4 components.
           raw_path (props data) = JSString rootPath
         \<and> assembleNested bb data rootPath = Inr (objects4, components)
         \<and> bom_metadata_component bom = rootPath
         \<and> bom_objects bom = (if flattenComponents bb
                then fst (flatten rootPath (Map_keys objects4) (objects4, components))
                else objects4)
         \<and> bom_components bom = (if flattenComponents bb
                then snd (flatten rootPath (Map_keys objects4) (objects4, components))
                else components)"
proof -
  obtain rootPath where rp: "raw_path (props data) = JSString rootPath"
    using assms by (cases "raw_path (props data)") (simp_all add: buildFromNpmLs_def)
  obtain objects4 components where a: "assembleNested bb data rootPath = Inr (objects4, components)"
    using assms rp by (cases "assembleNested bb data rootPath") (auto simp: buildFromNpmLs_def)
  show ?thesis
    using assms rp a by (auto simp: buildFromNpmLs_def split: prod.splits if_splits)
qed

text \<open>
  Claim C8, as amended. A build that returns has a root component, stored under the path
  of the root record, and it is the component \<^verbatim>\<open>makeComponent\<close> made of that record or, when
  \<^verbatim>\<open>makeComponent\<close> answered with the skip signal or with \<^verbatim>\<open>undefined\<close>, the placeholder:
  \<^verbatim>\<open>makeComponent(..) || new DummyComponent(..)\<close> replaces the policy skip as it replaces the
  malformed record.
\<close>

theorem root_component_materialized:
  assumes "buildFromNpmLs bb data = Inr bom"
  shows "raw_path (props data) = JSString (bom_metadata_component bom)
       \<and> (\<exists>c. Map_get (bom_objects bom) (bom_metadata_component bom) = Some c
            \<and> (case makeComponent bb (props data) (Some (metaComponentType bb)) of
                 Built c0 \<Rightarrow> core c = core c0
               | Skip \<Rightarrow> core c = core (DummyComponent (metaComponentType bb) ''RootComponent'')
               | Broken \<Rightarrow> core c = core (DummyComponent (metaComponentType bb) ''RootComponent'')))"
proof -
  from buildFromNpmLs_Inr[OF assms] obtain rootPath objects4 components where
    rp: "raw_path (props data) = JSString rootPath"
    and a: "assembleNested bb data rootPath = Inr (objects4, components)"
    and m: "bom_metadata_component bom = rootPath"
    and o: "bom_objects bom = (if flattenComponents bb
                then fst (flatten rootPath (Map_keys objects4) (objects4, components))
                else objects4)"
    by blast
  define root where "root = (case makeComponent bb (props data) (Some (metaComponentType bb)) of
                     Built c \<Rightarrow> c
                   | _ \<Rightarrow> DummyComponent (metaComponentType bb) ''RootComponent'')"
  define st0 where "st0 = \<lparr> allComponents = [(rootPath, root)], makeComponentCalls = [props data] \<rparr>"
  define st1 where "st1 = gatherDependencies bb data rootPath st0"
  have "keepsComponents st0 st1" unfolding st1_def by (rule gather_keepsComponents)
  moreover have "Map_get (allComponents st0) rootPath = Some root" by (simp add: st0_def)
  ultimately obtain c1 where c1: "Map_get (allComponents st1) rootPath = Some c1"
    "c1\<lparr> c_dependencies := c_dependencies root \<rparr> = root"
    unfolding keepsComponents_def by blast
  have "core (c1\<lparr> c_dependencies := c_dependencies root \<rparr>) = core c1" by simp
  with c1(2) have k1: "core c1 = core root" by simp
  have "sameCoreObjects (allComponents st1) objects4"
    using assembleNested_sameCore[OF a] unfolding st1_def st0_def root_def .
  moreover have "sameCoreObjects objects4 (bom_objects bom)"
    unfolding o by (simp add: sameCoreObjects_refl sameCoreObjects_flatten)
  ultimately have "sameCoreObjects (allComponents st1) (bom_objects bom)"
    by (rule sameCoreObjects_trans)
  then have "map_option core (Map_get (bom_objects bom) rootPath) = Some (core root)"
    using c1(1) k1 by (simp add: sameCoreObjects_def)
  then obtain c where c: "Map_get (bom_objects bom) rootPath = Some c" "core c = core root"
    by auto
  show ?thesis
    using rp m c unfolding root_def
    by (auto split: MakeComponentResult.splits)
qed

theorem root_component_materialized_witness:
  "raw_path (props devRootProject) = JSString ''/proj''
   \<and> (\<exists>c. Map_get (bom_objects (builtBom (buildFromNpmLs (sampleBomBuilder {Dev} False) devRootProject)))
              ''/proj'' = Some c
          \<and> core c = core (DummyComponent Application ''RootComponent''))"
proof -
  let ?r = "buildFromNpmLs (sampleBomBuilder {Dev} False) devRootProject"
  have h: "?r = Inr (builtBom ?r)"
    by code_simp
  have m: "bom_metadata_component (builtBom ?r) = ''/proj''"
    by code_simp
  have k: "makeComponent (sampleBomBuilder {Dev} False) (props devRootProject)
             (Some Application) = Skip"
    by (simp add: makeComponent_Skip_iff devRootProject_def packageRecord_def emptyRecord_def
        coalesce_def)
  have t: "metaComponentType (sampleBomBuilder {Dev} False) = Application"
    by (simp add: sampleBomBuilder_def)
  from root_component_materialized[OF h] show ?thesis
    unfolding m t k by simp
qed

text \<open>
  Claim C8 as it is written fails on a root record that carries the flag \<^verbatim>\<open>dev\<close> while
  \<^verbatim>\<open>dev\<close> is omitted: the record is one the component builder accepts, and the root of the
  document is the placeholder all the same.
\<close>

theorem root_component_materialized_counterexample:
  "map_option (\<lambda>c. (c_name c, c_isDummy c))
     (builtComponent (buildFromNpmLs (sampleBomBuilder {Dev} False) devRootProject) ''/proj'')
     = Some (''DummyComponent.RootComponent'', True)
   \<and> sampleComponentBuilder (props devRootProject) (Some Application) \<noteq> None"
  by code_simp

text \<open>
  Claim C4, as amended. In flatten mode, in a build that returns, every component has an
  empty list of components and every component but the root is a member of the
  top-level forest. Nothing else differs from the nested build of the same input: under
  every path the component is the one of the nested build with its components cleared,
  so the reference tokens carry the prefixes of the nesting and no property is added.
\<close>

theorem flatten_mode:
  assumes "flattenComponents bb" and "buildFromNpmLs bb data = Inr bom"
  shows "(\<forall>p c. Map_get (bom_objects bom) p = Some c \<longrightarrow> c_components c = [])
       \<and> (\<forall>p \<in> set (Map_keys (bom_objects bom)).
            p \<noteq> bom_metadata_component bom \<longrightarrow> p \<in> set (bom_components bom))
       \<and> (\<exists>nested. buildFromNpmLs (bb\<lparr> flattenComponents := False \<rparr>) data = Inr nested
            \<and> (\<forall>p. Map_get (bom_objects bom) p
                     = map_option clearComponents (Map_get (bom_objects nested) p)))"
proof -
  from buildFromNpmLs_Inr[OF assms(2)] assms(1) obtain rootPath objects4 components where
    rp: "raw_path (props data) = JSString rootPath"
    and a: "assembleNested bb data rootPath = Inr (objects4, components)"
    and m: "bom_metadata_component bom = rootPath"
    and o: "bom_objects bom = fst (flatten rootPath (Map_keys objects4) (objects4, components))"
    and f: "bom_components bom = snd (flatten rootPath (Map_keys objects4) (objects4, components))"
    by auto
  have g: "Map_get (bom_objects bom) p = map_option clearComponents (Map_get objects4 p)" for p
    unfolding o flatten_get using Map_get_None_iff[of objects4 p] by auto
  have 1: "\<forall>p c. Map_get (bom_objects bom) p = Some c \<longrightarrow> c_components c = []"
    by (auto simp: g clearComponents_def)
  have 2: "\<forall>p \<in> set (Map_keys (bom_objects bom)).
            p \<noteq> bom_metadata_component bom \<longrightarrow> p \<in> set (bom_components bom)"
    unfolding f flatten_forest m unfolding o flatten_keys by simp
  let ?n = "\<lparr> bom_metadata_component = rootPath, bom_components = components,
              bom_objects = objects4 \<rparr>"
  have "buildFromNpmLs (bb\<lparr> flattenComponents := False \<rparr>) data = Inr ?n"
    by (simp add: buildFromNpmLs_def rp assembleNested_flatten_irrelevant a)
  with g have 3: "\<exists>nested. buildFromNpmLs (bb\<lparr> flattenComponents := False \<rparr>) data = Inr nested
            \<and> (\<forall>p. Map_get (bom_objects bom) p
                     = map_option clearComponents (Map_get (bom_objects nested) p))"
    by auto
  from 1 2 3 show ?thesis by blast
qed

theorem flatten_mode_witness:
  "map_option c_components
     (builtComponent (buildFromNpmLs (sampleBomBuilder {} True) aliasProject) ''/proj/node_modules/a'')
     = Some []
   \<and> ''/proj/node_modules/a/node_modules/c''
       \<in> set (builtForest (buildFromNpmLs (sampleBomBuilder {} True) aliasProject))"
proof -
  let ?r = "buildFromNpmLs (sampleBomBuilder {} True) aliasProject"
  have h: "?r = Inr (builtBom ?r)"
    by code_simp
  have f: "flattenComponents (sampleBomBuilder {} True)"
    by (simp add: sampleBomBuilder_def)
  have k: "Map_keys (bom_objects (builtBom ?r))
             = [''/proj'', ''/proj/node_modules/a'', ''/proj/node_modules/a/node_modules/c'',
                ''/proj/node_modules/b'']"
    by code_simp
  have m: "bom_metadata_component (builtBom ?r) = ''/proj''"
    by code_simp
  obtain c where c: "Map_get (bom_objects (builtBom ?r)) ''/proj/node_modules/a'' = Some c"
    using Map_get_None_iff[of "bom_objects (builtBom ?r)" "''/proj/node_modules/a''"] k by auto
  from flatten_mode[OF f h] c k m
  have "c_components c = []"
    and "''/proj/node_modules/a/node_modules/c'' \<in> set (bom_components (builtBom ?r))"
    by auto
  then show ?thesis
    using c by (subst (1 2) h) (simp add: builtComponent_def builtForest_def)
qed

text \<open>
  Claim C4 as it is written fails on the sample project: in flatten mode the component
  \<open>c\<close> below \<open>a\<close> still gets the reference token \<open>a@1.0.0|c@2.0.0\<close>, the prefixing of the nested
  mode, and its only property is the install path.
\<close>

theorem flatten_mode_counterexample:
  "map_option (\<lambda>c. (c_bomRef c, c_properties c, c_components c))
     (builtComponent (buildFromNpmLs (sampleBomBuilder {} True) aliasProject)
        ''/proj/node_modules/a/node_modules/c'')
     = Some (Some ''a@1.0.0|c@2.0.0'', [(PackageInstallPath, ''node_modules/a/node_modules/c'')], [])"
  by code_simp

section \<open>The trie before it is rendered\<close>

text \<open>
  \<^verbatim>\<open>nestPT\<close> keeps the keys pieces of the keys it started with: moving \<open>b\<close> below \<open>a\<close>
  under the key \<^verbatim>\<open>b.slice(a.length)\<close> leaves the full key of \<open>b\<close> and of all below it as
  it was.
\<close>

lemma set_Map_set: "set (Map_set k v m) \<subseteq> insert (k, v) (set m)"
  by (induction m) (auto split: if_splits)

lemma set_Map_delete: "set (Map_delete k m) = {e \<in> set m. fst e \<noteq> k}"
  by (auto simp: Map_delete_def)

lemma in_set_Map_modify:
  "e \<in> set (Map_modify k f m) \<Longrightarrow> e \<in> set m \<or> (\<exists>v. (k, v) \<in> set m \<and> e = (k, f v))"
proof (induction m)
  case Nil
  then show ?case by simp
next
  case (Cons x m)
  show ?case
  proof (cases "fst x = k")
    case True
    then show ?thesis using Cons.prems by (cases x) auto
  next
    case False
    then have "e = x \<or> e \<in> set (Map_modify k f m)" using Cons.prems by (cases x) auto
    then show ?thesis using Cons.IH by auto
  qed
qed

lemma Map_get_SomeD: "Map_get m k = Some v \<Longrightarrow> (k, v) \<in> set m"
  by (induction m) (auto split: if_splits)

lemma startsWith_split:
  assumes "startsWith b a" and "a \<noteq> b"
  shows "b = a @ drop (length a) b" and "drop (length a) b \<noteq> []"
    and "last (drop (length a) b) = last b"
proof -
  show b: "b = a @ drop (length a) b"
    using assms(1) unfolding startsWith_def by (metis append_take_drop_id)
  show d: "drop (length a) b \<noteq> []"
    using b assms(2) by (metis append_Nil2)
  show "last (drop (length a) b) = last b"
    using b d by (metis last_append)
qed

lemma wellKeyed_moved:
  assumes w: "wellKeyed S sep pref (PTree tree)"
    and b: "Map_get tree b = Some bTree"
    and ab: "a \<noteq> b" and sw: "startsWith b a"
  shows "wellKeyed S sep pref
           (PTree (Map_delete b
              (Map_modify a (\<lambda>aTree. PTree (Map_set (drop (length a) b) bTree (entries aTree)))
                 tree)))"
proof -
  let ?k = "drop (length a) b"
  let ?F = "\<lambda>aTree. PTree (Map_set ?k bTree (entries aTree))"
  have bin: "(b, bTree) \<in> set tree" using b by (rule Map_get_SomeD)
  then have wb: "b \<noteq> []" "last b = sep" "pref @ b \<in> S" "wellKeyed S sep (pref @ b) bTree"
    using w by auto
  note sp = startsWith_split[OF sw ab]
  have new: "?k \<noteq> [] \<and> last ?k = sep \<and> (pref @ a) @ ?k \<in> S
               \<and> wellKeyed S sep ((pref @ a) @ ?k) bTree"
    using sp wb by (metis append.assoc)
  have "fst e \<noteq> [] \<and> last (fst e) = sep \<and> pref @ fst e \<in> S
          \<and> wellKeyed S sep (pref @ fst e) (snd e)"
    if e: "e \<in> set (Map_modify a ?F tree)" for e
  proof -
    from in_set_Map_modify[OF e]
    consider "e \<in> set tree" | aTree where "(a, aTree) \<in> set tree" "e = (a, ?F aTree)"
      by blast
    then show ?thesis
    proof cases
      case 1
      then show ?thesis using w by auto
    next
      case 2
      then have wa: "a \<noteq> []" "last a = sep" "pref @ a \<in> S" "wellKeyed S sep (pref @ a) aTree"
        using w by auto
      have old: "\<forall>x \<in> set (entries aTree). fst x \<noteq> [] \<and> last (fst x) = sep
                \<and> (pref @ a) @ fst x \<in> S \<and> wellKeyed S sep ((pref @ a) @ fst x) (snd x)"
        using wa(4) by (cases aTree) simp
      have "wellKeyed S sep (pref @ a) (PTree (Map_set ?k bTree (entries aTree)))"
        unfolding wellKeyed.simps
      proof
        fix x
        assume "x \<in> set (Map_set ?k bTree (entries aTree))"
        then have "x = (?k, bTree) \<or> x \<in> set (entries aTree)"
          using set_Map_set[of ?k bTree "entries aTree"] by blast
        then show "fst x \<noteq> [] \<and> last (fst x) = sep \<and> (pref @ a) @ fst x \<in> S
                \<and> wellKeyed S sep ((pref @ a) @ fst x) (snd x)"
          using new old by auto
      qed
      with wa 2 show ?thesis by simp
    qed
  qed
  then show ?thesis
    by (simp add: set_Map_delete)
qed

lemma wellKeyed_nestInner:
  "wellKeyed S sep pref (PTree tree) \<Longrightarrow> wellKeyed S sep pref (PTree (nestInner a pending tree))"
proof (induction pending arbitrary: tree)
  case Nil
  then show ?case by simp
next
  case (Cons b pending)
  show ?case
  proof (cases "Map_get tree b")
    case None
    then show ?thesis using Cons.IH[OF Cons.prems] by (simp del: wellKeyed.simps)
  next
    case (Some bTree)
    show ?thesis
    proof (cases "a \<noteq> b \<and> startsWith b a")
      case True
      then have "wellKeyed S sep pref
           (PTree (Map_delete b
              (Map_modify a (\<lambda>aTree. PTree (Map_set (drop (length a) b) bTree (entries aTree)))
                 tree)))"
        using wellKeyed_moved[OF Cons.prems Some] by blast
      from Cons.IH[OF this] show ?thesis using True Some by (simp del: wellKeyed.simps)
    next
      case False
      then have "nestInner a (b # pending) tree = nestInner a pending tree"
        using Some by auto
      then show ?thesis using Cons.IH[OF Cons.prems] by (simp del: wellKeyed.simps nestInner.simps)
    qed
  qed
qed

lemma wellKeyed_nestOuter:
  "wellKeyed S sep pref (PTree tree) \<Longrightarrow> wellKeyed S sep pref (PTree (nestOuter pending tree))"
proof (induction pending arbitrary: tree)
  case Nil
  then show ?case by simp
next
  case (Cons a pending)
  show ?case
    using Cons.IH[OF Cons.prems] Cons.IH[OF wellKeyed_nestInner[OF Cons.prems]]
    by (simp del: nestInner.simps wellKeyed.simps)
qed

lemma wellKeyed_nestPT:
  "wellKeyed S sep pref t \<Longrightarrow> wellKeyed S sep pref (nestPT t)"
proof (induction t arbitrary: pref rule: nestPT.induct)
  case (1 tree)
  show ?case
  proof (cases "length tree < 2")
    case True
    then show ?thesis using "1.prems" by simp
  next
    case False
    let ?es = "nestOuter (Map_keys tree) tree"
    have w: "wellKeyed S sep pref (PTree ?es)"
      using "1.prems" by (rule wellKeyed_nestOuter)
    have "fst e \<noteq> [] \<and> last (fst e) = sep \<and> pref @ fst e \<in> S
            \<and> wellKeyed S sep (pref @ fst e) (nestPT (snd e))" if "e \<in> set ?es" for e
    proof -
      from w that have "fst e \<noteq> []" "last (fst e) = sep" "pref @ fst e \<in> S"
        "wellKeyed S sep (pref @ fst e) (snd e)" by auto
      with "1.IH"[OF False that] show ?thesis by simp
    qed
    then show ?thesis using False by (simp add: nestPT.simps[of tree] del: nestPT.simps)
  qed
qed

lemma set_foldl_Map_set:
  "set (foldl (\<lambda>m p. Map_set (f p) v m) m0 ps) \<subseteq> set m0 \<union> (\<lambda>p. (f p, v)) ` set ps"
proof (induction ps arbitrary: m0)
  case Nil
  show ?case by simp
next
  case (Cons p ps)
  show ?case
    using Cons.IH[of "Map_set (f p) v m0"] set_Map_set[of "f p" v m0] by auto
qed

lemma wellKeyed_leaves:
  "wellKeyed ((\<lambda>p. p @ [sep]) ` set paths) sep [] (leaves paths sep)"
  using set_foldl_Map_set[of "\<lambda>p. p @ [sep]" "PTree []" "[]" paths]
  by (auto simp: leaves_def)

section \<open>The rendered trie\<close>

text \<open>
  Whatever \<^verbatim>\<open>renderPR\<close> stores, it stores under a full key without its last character,
  above a map that was rendered with that full key for its prefix; and when it has gone
  through its snapshot, every entry of the map is one it has stored.
\<close>

lemma butlast_full_key:
  assumes "p \<noteq> []" and "last p = sep"
  shows "butlast (pref @ p) @ [sep] = pref @ p"
  using assms by (metis append_butlast_last_id append_is_Nil_conv last_appendR)

lemma rendered_subtree:
  assumes "\<forall>e \<in> set (entries t). renderedEntry S sep pref e"
  shows "(\<forall>q \<in> set (allKeys t). q @ [sep] \<in> S \<and> strict_prefix pref (q @ [sep]))
       \<and> (\<forall>pq \<in> set (nestedPairs t). strict_prefix (fst pq @ [sep]) (snd pq @ [sep]))"
  using assms by (cases t) (auto simp: renderedEntry_def)

lemma renderedEntry_new:
  assumes p: "p \<noteq> []" "last p = sep" "pref @ p \<in> S"
    and sub: "\<forall>e \<in> set (entries t). renderedEntry S sep (pref @ p) e"
  shows "renderedEntry S sep pref (butlast (pref @ p), t)"
proof -
  have k: "butlast (pref @ p) @ [sep] = pref @ p"
    using p(1,2) by (rule butlast_full_key)
  have sp: "strict_prefix pref (pref @ p)" using p(1) by (simp add: strict_prefix_def)
  from rendered_subtree[OF sub]
  have a: "\<forall>q \<in> set (allKeys t). q @ [sep] \<in> S \<and> strict_prefix (pref @ p) (q @ [sep])"
    and n: "\<forall>pq \<in> set (nestedPairs t). strict_prefix (fst pq @ [sep]) (snd pq @ [sep])"
    by auto
  have "\<forall>q \<in> set (allKeys t). strict_prefix pref (q @ [sep])"
    using a sp by (meson prefix_order.less_trans)
  with a n k sp p(3) show ?thesis
    by (simp add: renderedEntry_def)
qed

lemma render_rendered:
  "wellKeyed S sep pref t \<Longrightarrow> \<forall>e \<in> set (entries (renderPR t pref)). renderedEntry S sep pref e"
  "wellKeyed S sep pref (PTree snapshot) \<Longrightarrow>
     \<forall>e \<in> set tree. renderedEntry S sep pref e \<or> fst e \<in> fst ` set snapshot \<Longrightarrow>
     \<forall>e \<in> set (renderEntries snapshot pref tree). renderedEntry S sep pref e"
proof (induction t pref and snapshot pref tree rule: renderPR_renderEntries.induct)
  case (1 tree pref)
  have "\<forall>e \<in> set tree. renderedEntry S sep pref e \<or> fst e \<in> fst ` set tree" by auto
  from "1.IH"[OF "1.prems" this] show ?case by simp
next
  case (2 pref tree)
  then show ?case by simp
next
  case (3 p pTree snapshot pref tree)
  have w: "p \<noteq> []" "last p = sep" "pref @ p \<in> S" "wellKeyed S sep (pref @ p) pTree"
    "wellKeyed S sep pref (PTree snapshot)"
    using "3.prems"(1) by auto
  let ?new = "(butlast (pref @ p), renderPR pTree (pref @ p))"
  have new: "renderedEntry S sep pref ?new"
    using w(1-3) "3.IH"(1)[OF w(4)] by (rule renderedEntry_new)
  have "renderedEntry S sep pref e \<or> fst e \<in> fst ` set snapshot"
    if "e \<in> set (Map_set (fst ?new) (snd ?new) (Map_delete p tree))" for e
  proof -
    from that set_Map_set[of "fst ?new" "snd ?new" "Map_delete p tree"]
    have "e = ?new \<or> (e \<in> set tree \<and> fst e \<noteq> p)"
      by (auto simp: set_Map_delete)
    then show ?thesis using new "3.prems"(2) by auto
  qed
  then have "\<forall>e \<in> set (Map_set (butlast (pref @ p)) (renderPR pTree (pref @ p)) (Map_delete p tree)).
      renderedEntry S sep pref e \<or> fst e \<in> fst ` set snapshot"
    by simp
  from "3.IH"(2)[OF w(5) this] show ?case by simp
qed

lemma fromPaths_rendered:
  "\<forall>e \<in> set (entries (fromPaths paths sep)).
      renderedEntry ((\<lambda>p. p @ [sep]) ` set paths) sep [] e"
  unfolding fromPaths_def
  by (intro render_rendered(1) wellKeyed_nestPT wellKeyed_leaves)

lemma fromPaths_keys: "set (allKeys (fromPaths paths sep)) \<subseteq> set paths"
  using rendered_subtree[OF fromPaths_rendered[of paths sep]] by auto

lemma fromPaths_nested:
  "pq \<in> set (nestedPairs (fromPaths paths sep)) \<Longrightarrow>
     strict_prefix (fst pq @ [sep]) (snd pq @ [sep])"
  using rendered_subtree[OF fromPaths_rendered[of paths sep]] by auto

section \<open>Nesting by path prefix\<close>

lemma three_orders:
  assumes "distinct xs" and "set xs = {a, b, c}" and "a \<noteq> b" "a \<noteq> c" "b \<noteq> c"
  shows "xs \<in> {[a, b, c], [a, c, b], [b, a, c], [b, c, a], [c, a, b], [c, b, a]}"
proof -
  have "card {a, b, c} = 3" using assms(3-5) by simp
  then have l: "length xs = 3"
    using distinct_card[OF assms(1)] assms(2) by simp
  obtain x xs1 where 1: "xs = x # xs1" "length xs1 = 2" using l by (cases xs) auto
  obtain y xs2 where 2: "xs1 = y # xs2" "length xs2 = 1" using 1(2) by (cases xs1) auto
  obtain z where 3: "xs2 = [z]" using 2(2) by (cases xs2) auto
  have xs: "xs = [x, y, z]" using 1 2 3 by simp
  have m: "x = a \<or> x = b \<or> x = c" "y = a \<or> y = b \<or> y = c" "z = a \<or> z = b \<or> z = c"
    using assms(2) unfolding xs by auto
  have d: "x \<noteq> y" "x \<noteq> z" "y \<noteq> z" using assms(1) unfolding xs by auto
  show ?thesis unfolding xs using m d by auto
qed

lemma chain_orders:
  assumes "paths \<in> {[p, a, b], [p, b, a], [a, p, b], [a, b, p], [b, p, a], [b, a, p]}"
    and "p = ''/proj''" and "a = ''/proj/node_modules/a''"
    and "b = ''/proj/node_modules/a/node_modules/b''"
  shows "fromPaths paths CHR ''/'' = PTree [(p, PTree [(a, PTree [(b, PTree [])])])]"
proof -
  have "fromPaths [''/proj'', ''/proj/node_modules/a'', ''/proj/node_modules/a/node_modules/b''] CHR ''/''
          = PTree [(''/proj'', PTree [(''/proj/node_modules/a'',
              PTree [(''/proj/node_modules/a/node_modules/b'', PTree [])])])]"
    by code_simp
  moreover have "fromPaths [''/proj'', ''/proj/node_modules/a/node_modules/b'', ''/proj/node_modules/a''] CHR ''/''
          = PTree [(''/proj'', PTree [(''/proj/node_modules/a'',
              PTree [(''/proj/node_modules/a/node_modules/b'', PTree [])])])]"
    by code_simp
  moreover have "fromPaths [''/proj/node_modules/a'', ''/proj'', ''/proj/node_modules/a/node_modules/b''] CHR ''/''
          = PTree [(''/proj'', PTree [(''/proj/node_modules/a'',
              PTree [(''/proj/node_modules/a/node_modules/b'', PTree [])])])]"
    by code_simp
  moreover have "fromPaths [''/proj/node_modules/a'', ''/proj/node_modules/a/node_modules/b'', ''/proj''] CHR ''/''
          = PTree [(''/proj'', PTree [(''/proj/node_modules/a'',
              PTree [(''/proj/node_modules/a/node_modules/b'', PTree [])])])]"
    by code_simp
  moreover have "fromPaths [''/proj/node_modules/a/node_modules/b'', ''/proj'', ''/proj/node_modules/a''] CHR ''/''
          = PTree [(''/proj'', PTree [(''/proj/node_modules/a'',
              PTree [(''/proj/node_modules/a/node_modules/b'', PTree [])])])]"
    by code_simp
  moreover have "fromPaths [''/proj/node_modules/a/node_modules/b'', ''/proj/node_modules/a'', ''/proj''] CHR ''/''
          = PTree [(''/proj'', PTree [(''/proj/node_modules/a'',
              PTree [(''/proj/node_modules/a/node_modules/b'', PTree [])])])]"
    by code_simp
  ultimately show ?thesis
    using assms(1) unfolding assms(2-4) by blast
qed

lemma chain_relations:
  assumes "p \<noteq> a" "p \<noteq> b" "a \<noteq> b"
  shows "(p, a) \<in> set (childPairs (PTree [(p, PTree [(a, PTree [(b, PTree [])])])]))"
    and "(a, b) \<in> set (childPairs (PTree [(p, PTree [(a, PTree [(b, PTree [])])])]))"
    and "\<not> siblings (PTree [(p, PTree [(a, PTree [(b, PTree [])])])]) a b"
  using assms by (auto simp: siblings_def)

text \<open>
  Claim C3. Whatever the order in which the set holds the three paths \<open>/proj\<close>,
  \<open>/proj/node_modules/a\<close> and \<open>/proj/node_modules/a/node_modules/b\<close>, the trie for the
  separator \<open>/\<close> has the node of \<open>a\<close> as a child of the node of \<open>/proj\<close> and the node of
  \<open>b\<close> as a child of the node of \<open>a\<close>, and \<open>a\<close> and \<open>b\<close> are in no map together. And for
  every set of paths and every separator: of two paths of which neither, with the
  separator appended, is a prefix of the other, neither is nested under the other.
\<close>

theorem path_prefix_nesting:
  "(distinct paths
      \<and> set paths = {''/proj'', ''/proj/node_modules/a'', ''/proj/node_modules/a/node_modules/b''} \<longrightarrow>
        (''/proj'', ''/proj/node_modules/a'') \<in> set (childPairs (fromPaths paths CHR ''/''))
      \<and> (''/proj/node_modules/a'', ''/proj/node_modules/a/node_modules/b'')
           \<in> set (childPairs (fromPaths paths CHR ''/''))
      \<and> \<not> siblings (fromPaths paths CHR ''/'')
             ''/proj/node_modules/a'' ''/proj/node_modules/a/node_modules/b'')
   \<and> (\<not> prefix (p @ [sep]) (q @ [sep]) \<and> \<not> prefix (q @ [sep]) (p @ [sep]) \<longrightarrow>
        (p, q) \<notin> set (nestedPairs (fromPaths ps sep))
      \<and> (q, p) \<notin> set (nestedPairs (fromPaths ps sep)))"
proof (intro conjI impI)
  assume a: "distinct paths
      \<and> set paths = {''/proj'', ''/proj/node_modules/a'', ''/proj/node_modules/a/node_modules/b''}"
  define P where "P = ''/proj''"
  define A where "A = ''/proj/node_modules/a''"
  define B where "B = ''/proj/node_modules/a/node_modules/b''"
  have ne: "P \<noteq> A" "P \<noteq> B" "A \<noteq> B" by (simp_all add: P_def A_def B_def)
  have "paths \<in> {[P, A, B], [P, B, A], [A, P, B], [A, B, P], [B, P, A], [B, A, P]}"
    using three_orders[of paths P A B] a ne unfolding P_def A_def B_def by blast
  then have t: "fromPaths paths CHR ''/'' = PTree [(P, PTree [(A, PTree [(B, PTree [])])])]"
    by (rule chain_orders) (simp_all add: P_def A_def B_def)
  show "(''/proj'', ''/proj/node_modules/a'') \<in> set (childPairs (fromPaths paths CHR ''/''))"
    and "(''/proj/node_modules/a'', ''/proj/node_modules/a/node_modules/b'')
           \<in> set (childPairs (fromPaths paths CHR ''/''))"
    and "\<not> siblings (fromPaths paths CHR ''/'')
             ''/proj/node_modules/a'' ''/proj/node_modules/a/node_modules/b''"
    using chain_relations[OF ne] unfolding t unfolding P_def A_def B_def by blast+
next
  assume n: "\<not> prefix (p @ [sep]) (q @ [sep]) \<and> \<not> prefix (q @ [sep]) (p @ [sep])"
  show "(p, q) \<notin> set (nestedPairs (fromPaths ps sep))"
    using fromPaths_nested[of "(p, q)" ps sep] n by (auto simp: strict_prefix_def)
  show "(q, p) \<notin> set (nestedPairs (fromPaths ps sep))"
    using fromPaths_nested[of "(q, p)" ps sep] n by (auto simp: strict_prefix_def)
qed

theorem path_prefix_nesting_witness:
  "(''/proj'', ''/proj/node_modules/a'')
      \<in> set (childPairs (fromPaths
          [''/proj/node_modules/a/node_modules/b'', ''/proj/node_modules/a'', ''/proj''] CHR ''/''))
   \<and> \<not> siblings (fromPaths
          [''/proj/node_modules/a/node_modules/b'', ''/proj/node_modules/a'', ''/proj''] CHR ''/'')
        ''/proj/node_modules/a'' ''/proj/node_modules/a/node_modules/b''
   \<and> (''/proj/abc'', ''/proj/abcdef'')
        \<notin> set (nestedPairs (fromPaths [''/proj'', ''/proj/abc'', ''/proj/abcdef''] CHR ''/''))"
proof -
  have h1: "distinct [''/proj/node_modules/a/node_modules/b'', ''/proj/node_modules/a'', ''/proj'']
      \<and> set [''/proj/node_modules/a/node_modules/b'', ''/proj/node_modules/a'', ''/proj'']
          = {''/proj'', ''/proj/node_modules/a'', ''/proj/node_modules/a/node_modules/b''}"
    by auto
  have h2: "\<not> prefix (''/proj/abc'' @ [CHR ''/'']) (''/proj/abcdef'' @ [CHR ''/''])
      \<and> \<not> prefix (''/proj/abcdef'' @ [CHR ''/'']) (''/proj/abc'' @ [CHR ''/''])"
    by simp
  from path_prefix_nesting[of
      "[''/proj/node_modules/a/node_modules/b'', ''/proj/node_modules/a'', ''/proj'']"
      "''/proj/abc''" "CHR ''/''" "''/proj/abcdef''" "[''/proj'', ''/proj/abc'', ''/proj/abcdef'']"]
    h1 h2
  show ?thesis by blast
qed

lemma nested_snd_in_keys: "pq \<in> set (nestedPairs t) \<Longrightarrow> snd pq \<in> set (allKeys t)"
proof (induction t)
  case (PTree es)
  from PTree.prems obtain e where e: "e \<in> set es"
    "pq \<in> Pair (fst e) ` set (allKeys (snd e)) \<or> pq \<in> set (nestedPairs (snd e))"
    by auto
  have "pq \<in> set (nestedPairs (snd e)) \<Longrightarrow> snd pq \<in> set (allKeys (snd e))"
    using PTree.IH[of e "snd e"] e(1) by (cases e) auto
  with e(2) have "snd pq \<in> set (allKeys (snd e))" by auto
  with e(1) show ?case by auto
qed

lemma childPairs_nested: "set (childPairs t) \<subseteq> set (nestedPairs t)"
proof (induction t)
  case (PTree es)
  have k: "set (map fst (entries c)) \<subseteq> set (allKeys c)" for c
    by (cases c) auto
  show ?case
  proof
    fix pq
    assume "pq \<in> set (childPairs (PTree es))"
    then obtain e where e: "e \<in> set es"
      "pq \<in> Pair (fst e) ` set (map fst (entries (snd e))) \<or> pq \<in> set (childPairs (snd e))"
      by auto
    have "set (childPairs (snd e)) \<subseteq> set (nestedPairs (snd e))"
      using PTree.IH[of e "snd e"] e(1) by (cases e) auto
    with e(2) k[of "snd e"]
    have "pq \<in> Pair (fst e) ` set (allKeys (snd e)) \<or> pq \<in> set (nestedPairs (snd e))"
      by auto
    with e(1) show "pq \<in> set (nestedPairs (PTree es))" by auto
  qed
qed

text \<open>
  Claim C9, as amended. After \<^verbatim>\<open>renderPR\<close> every key of the trie is one of the paths the
  trie was built from, the path from the root and not a segment: the key of a child starts
  with the key of its parent and the separator.
\<close>

theorem rendered_keys_are_full_paths:
  "set (allKeys (fromPaths paths sep)) \<subseteq> set paths
   \<and> (\<forall>pq \<in> set (childPairs (fromPaths paths sep)).
        prefix (fst pq @ [sep]) (snd pq) \<and> snd pq \<in> set paths)"
proof (intro conjI ballI)
  show "set (allKeys (fromPaths paths sep)) \<subseteq> set paths" by (rule fromPaths_keys)
next
  fix pq
  assume c: "pq \<in> set (childPairs (fromPaths paths sep))"
  then have n: "pq \<in> set (nestedPairs (fromPaths paths sep))"
    using childPairs_nested by blast
  from fromPaths_nested[OF n] show "prefix (fst pq @ [sep]) (snd pq)"
    by (auto simp: strict_prefix_def prefix_snoc)
  have "snd pq \<in> set (allKeys (fromPaths paths sep))"
    using n by (rule nested_snd_in_keys)
  then show "snd pq \<in> set paths" using fromPaths_keys by blast
qed

theorem rendered_keys_are_full_paths_witness:
  "set (allKeys (fromPaths [''/proj'', ''/proj/node_modules/a''] CHR ''/''))
     \<subseteq> set [''/proj'', ''/proj/node_modules/a'']
   \<and> prefix (''/proj'' @ [CHR ''/'']) ''/proj/node_modules/a''"
proof -
  have "(''/proj'', ''/proj/node_modules/a'')
          \<in> set (childPairs (fromPaths [''/proj'', ''/proj/node_modules/a''] CHR ''/''))"
    by code_simp
  with rendered_keys_are_full_paths[of "[''/proj'', ''/proj/node_modules/a'']" "CHR ''/''"]
  show ?thesis by fastforce
qed

text \<open>
  Claim C9 as it is written fails on two paths already: the key of the child is the
  whole path \<open>/proj/node_modules/a\<close>, not the segment \<open>node_modules/a\<close> after its parent.
\<close>

theorem rendered_keys_are_full_paths_counterexample:
  "fromPaths [''/proj'', ''/proj/node_modules/a''] CHR ''/''
     = PTree [(''/proj'', PTree [(''/proj/node_modules/a'', PTree [])])]
   \<and> ''/proj/node_modules/a'' \<noteq> ''node_modules/a''"
  by code_simp

section \<open>The nodes of the trie\<close>

text \<open>The full keys of a map are the full keys of its entries, one after the other.\<close>

lemma fullKeys_Nil [simp]: "fullKeys pref (PTree []) = []"
  by simp

lemma fullKeys_Cons:
  "fullKeys pref (PTree (e # es)) = fullKeys pref (PTree [e]) @ fullKeys pref (PTree es)"
  by simp

lemma fullKeys_append:
  "fullKeys pref (PTree (xs @ ys)) = fullKeys pref (PTree xs) @ fullKeys pref (PTree ys)"
  by simp

lemma fullKeys_single:
  "fullKeys pref (PTree [e]) = (pref @ fst e) # fullKeys (pref @ fst e) (snd e)"
  by simp

lemma fullKeys_key: "e \<in> set es \<Longrightarrow> pref @ fst e \<in> set (fullKeys pref (PTree es))"
  by auto

lemma fullKeys_below:
  "e \<in> set es \<Longrightarrow> set (fullKeys (pref @ fst e) (snd e)) \<subseteq> set (fullKeys pref (PTree es))"
  by auto

lemma fullKeys_entry:
  assumes "e \<in> set es"
  shows "set (fullKeys pref (PTree [e])) \<subseteq> set (fullKeys pref (PTree es))"
  using fullKeys_key[OF assms, of pref] fullKeys_below[OF assms, of pref]
  unfolding fullKeys_single by simp

lemma distinct_fullKeys_keys:
  "distinct (fullKeys pref (PTree es)) \<Longrightarrow> distinct (map fst es)"
proof (induction es)
  case Nil
  show ?case by simp
next
  case (Cons e es)
  have d: "distinct (fullKeys pref (PTree [e]))" "distinct (fullKeys pref (PTree es))"
    "set (fullKeys pref (PTree [e])) \<inter> set (fullKeys pref (PTree es)) = {}"
    using Cons.prems unfolding fullKeys_Cons[of pref e es] by auto
  have "fst e \<notin> fst ` set es"
  proof
    assume "fst e \<in> fst ` set es"
    then obtain x where x: "x \<in> set es" "fst x = fst e" by auto
    from fullKeys_key[OF x(1), of pref] x(2) d(3) show False by auto
  qed
  with Cons.IH[OF d(2)] show ?case by simp
qed

lemma mset_fullKeys_delete:
  assumes "distinct (map fst es)" and "Map_get es b = Some bTree"
  shows "mset (fullKeys pref (PTree es))
           = mset (fullKeys pref (PTree (Map_delete b es))) + mset (fullKeys pref (PTree [(b, bTree)]))"
  using assms
proof (induction es)
  case Nil
  then show ?case by simp
next
  case (Cons e es)
  show ?case
  proof (cases "fst e = b")
    case True
    then have e: "e = (b, bTree)" using Cons.prems(2) by (cases e) simp
    have "b \<notin> fst ` set es" using Cons.prems(1) True by auto
    then have "Map_delete b es = es" by (auto simp: Map_delete_def filter_id_conv)
    then show ?thesis using e by (simp add: Map_delete_def)
  next
    case False
    then have g: "Map_get es b = Some bTree" using Cons.prems(2) by (cases e) simp
    have "Map_delete b (e # es) = e # Map_delete b es" using False by (simp add: Map_delete_def)
    then show ?thesis
      using Cons.IH[OF _ g] Cons.prems(1) by simp
  qed
qed

lemma mset_fullKeys_modify:
  assumes "Map_get es a = Some aTree"
  shows "mset (fullKeys pref (PTree (Map_modify a f es))) + mset (fullKeys pref (PTree [(a, aTree)]))
           = mset (fullKeys pref (PTree es)) + mset (fullKeys pref (PTree [(a, f aTree)]))"
  using assms
proof (induction es)
  case Nil
  then show ?case by simp
next
  case (Cons e es)
  show ?case
  proof (cases "fst e = a")
    case True
    then have e: "e = (a, aTree)" using Cons.prems by (cases e) simp
    show ?thesis unfolding e by simp
  next
    case False
    then have g: "Map_get es a = Some aTree" using Cons.prems by (cases e) simp
    have m: "Map_modify a f (e # es) = e # Map_modify a f es" using False by (cases e) simp
    show ?thesis
      unfolding m fullKeys_Cons[of pref e "Map_modify a f es"] fullKeys_Cons[of pref e es]
      using Cons.IH[OF g] by (simp add: ac_simps)
  qed
qed

lemma Map_set_fresh: "k \<notin> fst ` set m \<Longrightarrow> Map_set k v m = m @ [(k, v)]"
  by (induction m) auto

lemma distinct_mset_split:
  assumes "distinct xs" and "mset xs = M1 + M2" and "x \<in># M1" and "x \<in># M2"
  shows False
proof -
  have "0 < count M1 x" "0 < count M2 x"
    using assms(3,4) by simp_all
  then have "2 \<le> count M1 x + count M2 x"
    by linarith
  then have "2 \<le> count (mset xs) x"
    unfolding assms(2) by simp
  moreover have "count (mset xs) x \<le> 1"
    using assms(1) by (simp add: distinct_count_atmost_1)
  ultimately show False by simp
qed

lemma mset_fullKeys_moved:
  assumes d: "distinct (fullKeys pref (PTree tree))"
    and a: "Map_get tree a = Some aTree"
    and b: "Map_get tree b = Some bTree"
    and ab: "a \<noteq> b" and sw: "startsWith b a"
  shows "mset (fullKeys pref (PTree (Map_delete b
            (Map_modify a (\<lambda>aTree. PTree (Map_set (drop (length a) b) bTree (entries aTree)))
               tree))))
         = mset (fullKeys pref (PTree tree))"
proof -
  let ?k = "drop (length a) b"
  let ?F = "\<lambda>aTree. PTree (Map_set ?k bTree (entries aTree))"
  let ?t2 = "Map_modify a ?F tree"
  note sp = startsWith_split[OF sw ab]
  have pb: "(pref @ a) @ ?k = pref @ b" using sp(1) by (metis append.assoc)
  have dk: "distinct (map fst tree)" using d by (rule distinct_fullKeys_keys)
  have ain: "(a, aTree) \<in> set tree" and bin: "(b, bTree) \<in> set tree"
    using a b by (auto dest: Map_get_SomeD)
  have fresh: "?k \<notin> fst ` set (entries aTree)"
  proof
    assume "?k \<in> fst ` set (entries aTree)"
    then obtain x where x: "x \<in> set (entries aTree)" "fst x = ?k" by auto
    have "(pref @ a) @ fst x \<in> set (fullKeys (pref @ a) (PTree (entries aTree)))"
      using x(1) by (rule fullKeys_key)
    then have ina: "pref @ b \<in> set (fullKeys pref (PTree [(a, aTree)]))"
      using x(2) pb by simp
    have inb: "pref @ b \<in> set (fullKeys pref (PTree [(b, bTree)]))" by simp
    have "(a, aTree) \<in> set (Map_delete b tree)"
      using ain ab by (simp add: set_Map_delete)
    then have "set (fullKeys pref (PTree [(a, aTree)])) \<subseteq> set (fullKeys pref (PTree (Map_delete b tree)))"
      by (rule fullKeys_entry)
    with ina have "pref @ b \<in># mset (fullKeys pref (PTree (Map_delete b tree)))" by auto
    moreover have "pref @ b \<in># mset (fullKeys pref (PTree [(b, bTree)]))" using inb by simp
    ultimately show False
      using distinct_mset_split[OF d mset_fullKeys_delete[OF dk b, of pref]] by blast
  qed
  have g2: "Map_get ?t2 b = Some bTree"
    using b ab by (simp add: Map_get_Map_modify)
  have dk2: "distinct (map fst ?t2)"
    using dk Map_keys_Map_modify[of a ?F tree] by (simp add: Map_keys_def)
  have F: "mset (fullKeys pref (PTree [(a, ?F aTree)]))
             = mset (fullKeys pref (PTree [(a, aTree)])) + mset (fullKeys pref (PTree [(b, bTree)]))"
    using Map_set_fresh[OF fresh, of bTree] pb by (cases aTree) simp
  have "mset (fullKeys pref (PTree (Map_delete b ?t2))) + mset (fullKeys pref (PTree [(b, bTree)]))
          + mset (fullKeys pref (PTree [(a, aTree)]))
        = mset (fullKeys pref (PTree ?t2)) + mset (fullKeys pref (PTree [(a, aTree)]))"
    using mset_fullKeys_delete[OF dk2 g2, of pref] by simp
  also have "\<dots> = mset (fullKeys pref (PTree tree)) + mset (fullKeys pref (PTree [(a, ?F aTree)]))"
    by (rule mset_fullKeys_modify[OF a])
  also have "\<dots> = mset (fullKeys pref (PTree tree)) + mset (fullKeys pref (PTree [(b, bTree)]))
          + mset (fullKeys pref (PTree [(a, aTree)]))"
    unfolding F by (simp add: ac_simps)
  finally show ?thesis by simp
qed

lemma Map_get_Some_iff: "(\<exists>v. Map_get m k = Some v) \<longleftrightarrow> k \<in> fst ` set m"
  using Map_get_None_iff[of m k] by (auto simp: Map_keys_def)

lemma mset_fullKeys_nestInner:
  assumes "distinct (fullKeys pref (PTree tree))" and "a \<in> fst ` set tree"
  shows "mset (fullKeys pref (PTree (nestInner a pending tree))) = mset (fullKeys pref (PTree tree))"
  using assms
proof (induction pending arbitrary: tree)
  case Nil
  show ?case by simp
next
  case (Cons b pending)
  show ?case
  proof (cases "Map_get tree b")
    case None
    then show ?thesis using Cons.IH[OF Cons.prems] by simp
  next
    case (Some bTree)
    show ?thesis
    proof (cases "a \<noteq> b \<and> startsWith b a")
      case True
      let ?t = "Map_delete b
              (Map_modify a (\<lambda>aTree. PTree (Map_set (drop (length a) b) bTree (entries aTree)))
                 tree)"
      obtain aTree where a: "Map_get tree a = Some aTree"
        using Cons.prems(2) Map_get_Some_iff[of tree a] by blast
      have m: "mset (fullKeys pref (PTree ?t)) = mset (fullKeys pref (PTree tree))"
        using mset_fullKeys_moved[OF Cons.prems(1) a Some] True by blast
      then have d: "distinct (fullKeys pref (PTree ?t))"
        using Cons.prems(1) by (metis mset_eq_imp_distinct_iff)
      have "fst ` set (Map_modify a (\<lambda>aTree. PTree (Map_set (drop (length a) b) bTree (entries aTree)))
                 tree) = fst ` set tree"
        using Map_keys_Map_modify[of a _ tree] by (metis Map_keys_def set_map)
      then have k: "a \<in> fst ` set ?t"
        using Cons.prems(2) True by (auto simp: set_Map_delete)
      have "nestInner a (b # pending) tree = nestInner a pending ?t"
        using True Some by simp
      then show ?thesis using Cons.IH[OF d k] m by simp
    next
      case False
      then have "nestInner a (b # pending) tree = nestInner a pending tree"
        using Some by auto
      then show ?thesis using Cons.IH[OF Cons.prems] by simp
    qed
  qed
qed

lemma mset_fullKeys_nestOuter:
  assumes "distinct (fullKeys pref (PTree tree))"
  shows "mset (fullKeys pref (PTree (nestOuter pending tree))) = mset (fullKeys pref (PTree tree))"
  using assms
proof (induction pending arbitrary: tree)
  case Nil
  show ?case by simp
next
  case (Cons a pending)
  show ?case
  proof (cases "a \<in> set (Map_keys tree)")
    case True
    then have k: "a \<in> fst ` set tree" by (simp add: Map_keys_def)
    let ?t = "nestInner a (Map_keys tree) tree"
    have m: "mset (fullKeys pref (PTree ?t)) = mset (fullKeys pref (PTree tree))"
      using mset_fullKeys_nestInner[OF Cons.prems k] .
    then have d: "distinct (fullKeys pref (PTree ?t))"
      using Cons.prems by (metis mset_eq_imp_distinct_iff)
    have "nestOuter (a # pending) tree = nestOuter pending ?t" using True by simp
    then show ?thesis using Cons.IH[OF d] m by simp
  next
    case False
    then have "nestOuter (a # pending) tree = nestOuter pending tree" by simp
    then show ?thesis using Cons.IH[OF Cons.prems] by simp
  qed
qed

lemma mset_fullKeys_cong:
  assumes "\<And>e. e \<in> set es \<Longrightarrow>
             mset (fullKeys (pref @ fst e) (f (snd e))) = mset (fullKeys (pref @ fst e) (snd e))"
  shows "mset (fullKeys pref (PTree (map (\<lambda>e. (fst e, f (snd e))) es)))
           = mset (fullKeys pref (PTree es))"
  using assms
proof (induction es)
  case Nil
  show ?case by simp
next
  case (Cons e es)
  have "mset (fullKeys pref (PTree (map (\<lambda>e. (fst e, f (snd e))) es)))
           = mset (fullKeys pref (PTree es))"
    using Cons.IH Cons.prems by simp
  moreover have "mset (fullKeys (pref @ fst e) (f (snd e))) = mset (fullKeys (pref @ fst e) (snd e))"
    using Cons.prems by simp
  ultimately show ?case by simp
qed

lemma distinct_fullKeys_below:
  assumes "distinct (fullKeys pref (PTree es))" and "e \<in> set es"
  shows "distinct (fullKeys (pref @ fst e) (snd e))"
proof -
  from assms(2) obtain xs ys where "es = xs @ e # ys" by (metis split_list)
  then have "fullKeys pref (PTree es)
      = fullKeys pref (PTree xs) @ ((pref @ fst e) # fullKeys (pref @ fst e) (snd e))
          @ fullKeys pref (PTree ys)"
    by simp
  with assms(1) show ?thesis by simp
qed

lemma mset_fullKeys_nestPT:
  "distinct (fullKeys pref t) \<Longrightarrow> mset (fullKeys pref (nestPT t)) = mset (fullKeys pref t)"
proof (induction t arbitrary: pref rule: nestPT.induct)
  case (1 tree)
  show ?case
  proof (cases "length tree < 2")
    case True
    then show ?thesis by simp
  next
    case False
    let ?es = "nestOuter (Map_keys tree) tree"
    have m: "mset (fullKeys pref (PTree ?es)) = mset (fullKeys pref (PTree tree))"
      using "1.prems" by (rule mset_fullKeys_nestOuter)
    then have d: "distinct (fullKeys pref (PTree ?es))"
      using "1.prems" by (metis mset_eq_imp_distinct_iff)
    have "mset (fullKeys pref (PTree (map (\<lambda>e. (fst e, nestPT (snd e))) ?es)))
            = mset (fullKeys pref (PTree ?es))"
    proof (rule mset_fullKeys_cong)
      fix e
      assume e: "e \<in> set ?es"
      from "1.IH"[OF False e distinct_fullKeys_below[OF d e]]
      show "mset (fullKeys (pref @ fst e) (nestPT (snd e))) = mset (fullKeys (pref @ fst e) (snd e))" .
    qed
    with m show ?thesis using False by (simp add: nestPT.simps[of tree] del: nestPT.simps fullKeys.simps)
  qed
qed

lemma foldl_Map_set_fresh:
  assumes "distinct (map f ps)" and "f ` set ps \<inter> fst ` set m0 = {}"
  shows "foldl (\<lambda>m p. Map_set (f p) v m) m0 ps = m0 @ map (\<lambda>p. (f p, v)) ps"
  using assms
proof (induction ps arbitrary: m0)
  case Nil
  show ?case by simp
next
  case (Cons p ps)
  have "f p \<notin> fst ` set m0" using Cons.prems(2) by auto
  then have s: "Map_set (f p) v m0 = m0 @ [(f p, v)]" by (rule Map_set_fresh)
  have "f ` set ps \<inter> fst ` set (m0 @ [(f p, v)]) = {}"
    using Cons.prems by auto
  with Cons.IH[of "m0 @ [(f p, v)]"] Cons.prems(1) s show ?case by simp
qed

lemma leaves_distinct:
  assumes "distinct paths"
  shows "leaves paths sep = PTree (map (\<lambda>p. (p @ [sep], PTree [])) paths)"
proof -
  have "distinct (map (\<lambda>p. p @ [sep]) paths)"
    using assms by (simp add: distinct_map inj_on_def)
  from foldl_Map_set_fresh[OF this, of "[]" "PTree []"] show ?thesis
    by (simp add: leaves_def)
qed

lemma fullKeys_leaves:
  assumes "distinct paths"
  shows "fullKeys [] (leaves paths sep) = map (\<lambda>p. p @ [sep]) paths"
  unfolding leaves_distinct[OF assms] by (induction paths) auto

section \<open>The trie of paths that do not end with the separator\<close>

lemma Map_delete_fresh: "k \<notin> fst ` set m \<Longrightarrow> Map_delete k m = m"
  by (induction m) (auto simp: Map_delete_def)

lemma butlast_inj_last:
  assumes "x \<noteq> []" "y \<noteq> []" "last x = last y" "butlast x = butlast y"
  shows "x = y"
  using assms by (metis append_butlast_last_id)

lemma allKeys_fullPathKeys: "allKeys (fullPathKeys pref t) = map butlast (fullKeys pref t)"
proof (induction t arbitrary: pref)
  case (PTree es)
  have "allKeys (fullPathKeys (pref @ fst e) (snd e)) = map butlast (fullKeys (pref @ fst e) (snd e))"
    if "e \<in> set es" for e
    using PTree.IH[of e "snd e" "pref @ fst e"] that by (cases e) auto
  then show ?case
    by (induction es) (auto simp del: fullPathKeys.simps simp add: fullPathKeys.simps[of pref])
qed

text \<open>
  The loop of \<^verbatim>\<open>renderPR\<close> on a snapshot whose entries stand at the head of the map, where
  no key that is stored meets a key of the map.
\<close>

lemma renderEntries_fresh:
  assumes "\<And>e. e \<in> set snapshot \<Longrightarrow> renderPR (snd e) (pref @ fst e) = fullPathKeys (pref @ fst e) (snd e)"
    and "distinct (map fst snapshot)"
    and "distinct (map (\<lambda>e. butlast (pref @ fst e)) snapshot)"
    and "fst ` set snapshot \<inter> fst ` set done = {}"
    and "(\<lambda>e. butlast (pref @ fst e)) ` set snapshot \<inter> fst ` set done = {}"
    and "(\<lambda>e. butlast (pref @ fst e)) ` set snapshot \<inter> fst ` set snapshot = {}"
  shows "renderEntries snapshot pref (snapshot @ done)
           = done @ map (\<lambda>e. (butlast (pref @ fst e), fullPathKeys (pref @ fst e) (snd e))) snapshot"
  using assms
proof (induction snapshot arbitrary: "done")
  case Nil
  show ?case by simp
next
  case (Cons e rest)
  obtain p pTree where e: "e = (p, pTree)" by (cases e)
  let ?k = "butlast (pref @ p)"
  let ?v = "fullPathKeys (pref @ p) pTree"
  have r: "renderPR pTree (pref @ p) = ?v" using Cons.prems(1)[of e] e by simp
  have "p \<notin> fst ` set rest" "p \<notin> fst ` set done"
    using Cons.prems(2,4) e by auto
  then have "p \<notin> fst ` set (rest @ done)" by auto
  then have "Map_delete p (rest @ done) = rest @ done" by (rule Map_delete_fresh)
  then have del: "Map_delete p ((e # rest) @ done) = rest @ done"
    using e by (simp add: Map_delete_def)
  have "?k \<notin> fst ` set rest" "?k \<notin> fst ` set done"
    using Cons.prems(5,6) e by auto
  then have set: "Map_set ?k ?v (rest @ done) = rest @ (done @ [(?k, ?v)])"
    using Map_set_fresh[of ?k "rest @ done" ?v] by auto
  have step: "renderEntries (e # rest) pref ((e # rest) @ done)
                = renderEntries rest pref (rest @ (done @ [(?k, ?v)]))"
    unfolding e using del[unfolded e] set r by simp
  have "renderEntries rest pref (rest @ (done @ [(?k, ?v)]))
          = (done @ [(?k, ?v)])
            @ map (\<lambda>e. (butlast (pref @ fst e), fullPathKeys (pref @ fst e) (snd e))) rest"
  proof (rule Cons.IH)
    show "renderPR (snd x) (pref @ fst x) = fullPathKeys (pref @ fst x) (snd x)"
      if "x \<in> set rest" for x using Cons.prems(1)[of x] that by simp
    show "distinct (map fst rest)" using Cons.prems(2) by simp
    show "distinct (map (\<lambda>e. butlast (pref @ fst e)) rest)" using Cons.prems(3) by simp
    show "fst ` set rest \<inter> fst ` set (done @ [(?k, ?v)]) = {}"
      using Cons.prems(4,6) e by auto
    show "(\<lambda>e. butlast (pref @ fst e)) ` set rest \<inter> fst ` set (done @ [(?k, ?v)]) = {}"
      using Cons.prems(3,5) e by auto
    show "(\<lambda>e. butlast (pref @ fst e)) ` set rest \<inter> fst ` set rest = {}"
      using Cons.prems(6) by auto
  qed
  with step show ?case using e by simp
qed

lemma distinct_keys_eq:
  assumes "distinct (map fst es)" and "x \<in> set es" and "y \<in> set es" and "fst x = fst y"
  shows "x = y"
proof -
  have "inj_on fst (set es)" using assms(1) by (simp add: distinct_map)
  then show ?thesis using assms(2-4) by (simp add: inj_on_def)
qed

lemma renderPR_fullPathKeys:
  assumes S: "\<forall>f \<in> S. butlast f = [] \<or> last (butlast f) \<noteq> sep"
  shows "wellKeyed S sep pref t \<Longrightarrow> distinct (fullKeys pref t) \<Longrightarrow>
           renderPR t pref = fullPathKeys pref t"
proof (induction t arbitrary: pref)
  case (PTree es)
  have w: "fst e \<noteq> []" "last (fst e) = sep" "pref @ fst e \<in> S"
    "wellKeyed S sep (pref @ fst e) (snd e)" if "e \<in> set es" for e
    using PTree.prems(1) that by auto
  have sub: "renderPR (snd e) (pref @ fst e) = fullPathKeys (pref @ fst e) (snd e)"
    if "e \<in> set es" for e
  proof -
    have "snd e \<in> Basic_BNFs.snds e" by (cases e) simp
    from PTree.IH[OF that this w(4)[OF that] distinct_fullKeys_below[OF PTree.prems(2) that]]
    show ?thesis .
  qed
  have dk: "distinct (map fst es)" using PTree.prems(2) by (rule distinct_fullKeys_keys)
  have inj: "inj_on (\<lambda>e. butlast (pref @ fst e)) (set es)"
  proof (rule inj_onI)
    fix x y
    assume x: "x \<in> set es" and y: "y \<in> set es"
      and eq: "butlast (pref @ fst x) = butlast (pref @ fst y)"
    have "pref @ fst x \<noteq> []" "pref @ fst y \<noteq> []"
      using w(1)[OF x] w(1)[OF y] by simp_all
    moreover have "last (pref @ fst x) = last (pref @ fst y)"
      using w(1,2)[OF x] w(1,2)[OF y] by simp
    ultimately have "pref @ fst x = pref @ fst y"
      using eq by (rule butlast_inj_last)
    then have "fst x = fst y" by simp
    with dk x y show "x = y" by (rule distinct_keys_eq)
  qed
  have "distinct es" using dk by (simp add: distinct_map)
  then have dn: "distinct (map (\<lambda>e. butlast (pref @ fst e)) es)"
    using inj by (simp add: distinct_map)
  have disj: "(\<lambda>e. butlast (pref @ fst e)) ` set es \<inter> fst ` set es = {}"
  proof -
    have False if x: "x \<in> set es" and y: "y \<in> set es" and eq: "butlast (pref @ fst x) = fst y"
      for x y
    proof -
      have "butlast (pref @ fst x) = [] \<or> last (butlast (pref @ fst x)) \<noteq> sep"
        using S w(3)[OF x] by blast
      then have "fst y = [] \<or> last (fst y) \<noteq> sep" unfolding eq .
      with w(1,2)[OF y] show False by blast
    qed
    then show ?thesis by blast
  qed
  have "renderEntries es pref (es @ [])
          = [] @ map (\<lambda>e. (butlast (pref @ fst e), fullPathKeys (pref @ fst e) (snd e))) es"
  proof (rule renderEntries_fresh)
    show "renderPR (snd e) (pref @ fst e) = fullPathKeys (pref @ fst e) (snd e)"
      if "e \<in> set es" for e using that by (rule sub)
    show "distinct (map fst es)" by (rule dk)
    show "distinct (map (\<lambda>e. butlast (pref @ fst e)) es)" by (rule dn)
    show "fst ` set es \<inter> fst ` set [] = {}" by simp
    show "(\<lambda>e. butlast (pref @ fst e)) ` set es \<inter> fst ` set [] = {}" by simp
    show "(\<lambda>e. butlast (pref @ fst e)) ` set es \<inter> fst ` set es = {}" by (rule disj)
  qed
  then show ?case by simp
qed

text \<open>The trie of paths that differ and do not end with the separator.\<close>

lemma fromPaths_fullPathKeys:
  assumes "distinct paths" and "\<forall>p \<in> set paths. p = [] \<or> last p \<noteq> sep"
  shows "mset (allKeys (fromPaths paths sep)) = mset paths
       \<and> fromPaths paths sep = fullPathKeys [] (nestPT (leaves paths sep))"
proof -
  let ?S = "(\<lambda>p. p @ [sep]) ` set paths"
  let ?n = "nestPT (leaves paths sep)"
  have dl: "distinct (fullKeys [] (leaves paths sep))"
    unfolding fullKeys_leaves[OF assms(1)] using assms(1) by (simp add: distinct_map inj_on_def)
  have m: "mset (fullKeys [] ?n) = mset (map (\<lambda>p. p @ [sep]) paths)"
    using mset_fullKeys_nestPT[OF dl] fullKeys_leaves[OF assms(1), of sep] by simp
  then have dn: "distinct (fullKeys [] ?n)"
    using dl fullKeys_leaves[OF assms(1), of sep] by (metis mset_eq_imp_distinct_iff)
  have w: "wellKeyed ?S sep [] ?n"
    by (intro wellKeyed_nestPT wellKeyed_leaves)
  have S: "\<forall>f \<in> ?S. butlast f = [] \<or> last (butlast f) \<noteq> sep"
    using assms(2) by auto
  have r: "fromPaths paths sep = fullPathKeys [] ?n"
    unfolding fromPaths_def using renderPR_fullPathKeys[OF S w dn] .
  have "mset (allKeys (fromPaths paths sep)) = image_mset butlast (mset (fullKeys [] ?n))"
    unfolding r allKeys_fullPathKeys by simp
  also have "\<dots> = mset paths"
    unfolding m by (simp add: image_mset.compositionality comp_def)
  finally show ?thesis using r by simp
qed

text \<open>
  Claim C10, as amended. For paths that differ from each other and of which none ends
  with the separator, the trie has exactly one node for each path and no other: the keys
  of its nodes are the paths, each once. \<^verbatim>\<open>renderPR\<close> then stores no key where a key is,
  and the trie is the nested one with every key replaced by its full key without the
  last character.
\<close>

theorem trie_nodes:
  assumes "distinct paths" and "\<forall>p \<in> set paths. p = [] \<or> last p \<noteq> sep"
  shows "mset (allKeys (fromPaths paths sep)) = mset paths
       \<and> fromPaths paths sep = fullPathKeys [] (nestPT (leaves paths sep))"
  using assms by (rule fromPaths_fullPathKeys)

theorem trie_nodes_witness:
  "mset (allKeys (fromPaths [''/proj'', ''/proj/node_modules/a'', ''/proj/node_modules/b''] CHR ''/''))
     = mset [''/proj'', ''/proj/node_modules/a'', ''/proj/node_modules/b'']"
proof -
  have "distinct [''/proj'', ''/proj/node_modules/a'', ''/proj/node_modules/b'']"
    by simp
  moreover have "\<forall>p \<in> set [''/proj'', ''/proj/node_modules/a'', ''/proj/node_modules/b''].
                   p = [] \<or> last p \<noteq> CHR ''/''"
    by simp
  ultimately show ?thesis
    using trie_nodes[of "[''/proj'', ''/proj/node_modules/a'', ''/proj/node_modules/b'']" "CHR ''/''"]
    by blast
qed

text \<open>
  Claim C10 as it is written fails on three paths that are not empty, of which one ends
  with the separator: \<^verbatim>\<open>renderPR\<close> stores the node of \<open>x/\<close> under the key \<open>x/\<close>, which is
  still the key of the node of \<open>x/x\<close>, and deletes it with that key; the trie has no node
  for the path \<open>x/\<close>.
\<close>

theorem trie_nodes_counterexample:
  "allKeys (fromPaths [''x'', ''x/'', ''x/x''] CHR ''/'') = [''x'', ''x/x'']
   \<and> distinct [''x'', ''x/'', ''x/x'']"
  by code_simp

section \<open>The keys of the rendered trie\<close>






section \<open>The reference tokens of nested components\<close>



































end
